theory Spec2Isabelle
  imports Complex_Main
begin

section \<open>Errors\<close>

text \<open>
  Every exception the modelled code can raise is a value. The three bare \<^verbatim>\<open>assert\<close>
  statements of \<^verbatim>\<open>space.py\<close> all raise Python's AssertionError; they are told apart
  here by the names the specification gives them: \<open>ShapeMismatch\<close> is the assertion of
  \<^verbatim>\<open>Space.infer\<close>, \<open>IncompatibleAxes\<close> the one of \<^verbatim>\<open>Space.transform\<close>, and
  \<open>InconsistentSize\<close> the one of \<^verbatim>\<open>Space.broadcast\<close>. The others are the
  built-in exceptions of Python and numpy.
\<close>

datatype error =
    ShapeMismatch
  | IncompatibleAxes
  | InconsistentSize
  | ValueError
  | KeyError
  | IndexError
  | ZeroDivisionError

definition bind_err :: "error + 'a \<Rightarrow> ('a \<Rightarrow> error + 'b) \<Rightarrow> error + 'b" where
  "bind_err m f = (case m of Inl e \<Rightarrow> Inl e | Inr x \<Rightarrow> f x)"

section \<open>Axes and ordered dictionaries\<close>

text \<open>
  An axis of a \<^verbatim>\<open>Space\<close> is a Python string (\<open>Name\<close>) or a sequence of labels
  (\<open>Group\<close>). The code turns either into its leaf labels with \<^verbatim>\<open>list(ax)\<close>, which
  splits a string into its one-character strings and leaves a sequence as it is.
\<close>

type_synonym label = string

datatype axis = Name string | Group "label list"

fun list_of :: "axis \<Rightarrow> label list" where
  "list_of (Name s) = map (\<lambda>c. [c]) s"
| "list_of (Group g) = g"

text \<open>\<^verbatim>\<open>_fold_axes\<close>: the leaf labels of a list of axes, in order.\<close>

definition fold_axes :: "axis list \<Rightarrow> label list" where
  "fold_axes unfolded = concat (map list_of unfolded)"

text \<open>
  An \<^verbatim>\<open>OrderedDict\<close> is an association list in insertion order. Storing under a key
  that is present replaces the value where it stands; a new key goes to the end.
  Extents are sizes of array dimensions, hence natural numbers.
\<close>

type_synonym odict = "(label \<times> nat) list"

fun od_set :: "odict \<Rightarrow> label \<Rightarrow> nat \<Rightarrow> odict" where
  "od_set [] k v = [(k, v)]"
| "od_set ((k', v') # kvs) k v =
     (if k' = k then (k, v) # kvs else (k', v') # od_set kvs k v)"

definition od_of_pairs :: "(label \<times> nat) list \<Rightarrow> odict" where
  "od_of_pairs ps = foldl (\<lambda>d (k, v). od_set d k v) [] ps"

definition od_get :: "odict \<Rightarrow> label \<Rightarrow> nat \<Rightarrow> nat" where
  "od_get d k dflt = (case map_of d k of None \<Rightarrow> dflt | Some v \<Rightarrow> v)"

definition od_item :: "odict \<Rightarrow> label \<Rightarrow> error + nat" where
  "od_item d k = (case map_of d k of None \<Rightarrow> Inl KeyError | Some v \<Rightarrow> Inr v)"

section \<open>Arrays\<close>

text \<open>
  A numpy array is its shape and its elements in row-major (C) order. \<open>nd_size\<close> is
  \<^verbatim>\<open>X.size\<close>. A well-formed array holds as many elements as its shape says.
\<close>

record 'a ndarray =
  shape :: "nat list"
  data :: "'a list"

definition nd_size :: "'a ndarray \<Rightarrow> nat" where
  "nd_size X = prod_list (shape X)"

definition wf_array :: "'a ndarray \<Rightarrow> bool" where
  "wf_array X \<longleftrightarrow> length (data X) = prod_list (shape X)"

text \<open>\<^verbatim>\<open>np.reshape(X, shp)\<close>: the same elements under another shape of the same size.\<close>

definition np_reshape :: "'a ndarray \<Rightarrow> nat list \<Rightarrow> error + 'a ndarray" where
  "np_reshape X shp =
     (if prod_list shp = nd_size X then Inr \<lparr>shape = shp, data = data X\<rparr>
      else Inl ValueError)"

section \<open>Space\<close>

record space =
  axes :: "axis list"
  extent :: odict

definition folded_axes :: "space \<Rightarrow> label list" where
  "folded_axes S = fold_axes (axes S)"

text \<open>
  \<^verbatim>\<open>Space.size\<close>: the product of all values of the extent dictionary. Here
  \<^verbatim>\<open>np.prod\<close> is taken as the product of natural numbers: \<^verbatim>\<open>size\<close> is only compared
  with the number of elements of an array held in memory, where the product is far
  below \<open>2 ^ 63\<close> and numpy's 64-bit integers do not wrap around.
\<close>

definition size_sp :: "space \<Rightarrow> nat" where
  "size_sp S = prod_list (map snd (extent S))"

definition folded_shape :: "space \<Rightarrow> nat list" where
  "folded_shape S = map snd (extent S)"

text \<open>
  \<^verbatim>\<open>int(np.prod(vs))\<close> for a list \<open>vs\<close> of extents that fit 64 bits: numpy multiplies
  them as signed 64-bit integers without any check, so the result is the product
  wrapped around into \<open>- 2 ^ 63, ..., 2 ^ 63 - 1\<close> (two's complement; 64 bits are
  numpy's default integer on the platforms the code is written for). The product of
  the empty list is the float \<^verbatim>\<open>1.0\<close>, which \<^verbatim>\<open>int\<close> turns into 1.
\<close>

definition np_prod_int64 :: "nat list \<Rightarrow> int" where
  "np_prod_int64 vs = (int (prod_list vs) + 2 ^ 63) mod 2 ^ 64 - 2 ^ 63"

text \<open>
  \<^verbatim>\<open>_size_of_axis\<close>: \<^verbatim>\<open>int(np.prod(...))\<close> of the extents whose key is among the leaves of
  the axis, \<^verbatim>\<open>list(ax)\<close>. \<open>size_of_axis_int64\<close> is the value as numpy computes it;
  \<open>size_of_axis\<close> is the product itself, which is that value whenever the product is
  below \<open>2 ^ 63\<close> (lemma \<open>size_of_axis_int64_exact\<close>).

  \<^verbatim>\<open>shape\<close> is used with arrays held in memory, whose dimensions multiply to their
  number of elements, and is given by the products. \<^verbatim>\<open>get_extent\<close> needs no array: the
  extents of a space can be any integers, so it is given by the values that numpy
  computes.
\<close>

definition size_of_axis :: "space \<Rightarrow> axis \<Rightarrow> nat" where
  "size_of_axis S ax =
     prod_list (map snd (filter (\<lambda>(k, v). k \<in> set (list_of ax)) (extent S)))"

definition size_of_axis_int64 :: "space \<Rightarrow> axis \<Rightarrow> int" where
  "size_of_axis_int64 S ax =
     np_prod_int64 (map snd (filter (\<lambda>(k, v). k \<in> set (list_of ax)) (extent S)))"

definition shape_sp :: "space \<Rightarrow> nat list" where
  "shape_sp S = map (size_of_axis S) (axes S)"

definition get_extent :: "space \<Rightarrow> axis list \<Rightarrow> int list" where
  "get_extent S axs = map (size_of_axis_int64 S) axs"

text \<open>
  \<^verbatim>\<open>Space.infer(X, axes)\<close> reads only \<^verbatim>\<open>X.shape\<close>. The axes are a flat list of
  labels; the extent is \<^verbatim>\<open>OrderedDict(zip(axes, X.shape))\<close>.
\<close>

definition infer :: "'a ndarray \<Rightarrow> label list \<Rightarrow> error + space" where
  "infer X axs =
     (if length (shape X) \<noteq> length axs then Inl ShapeMismatch
      else Inr \<lparr>axes = map Name axs, extent = od_of_pairs (zip axs (shape X))\<rparr>)"

text \<open>
  \<^verbatim>\<open>_fold\<close> reshapes an array to the fully flattened leaf layout (one dimension per
  entry of the extent dictionary, in its order), \<^verbatim>\<open>_unfold\<close> to the grouped shape.
\<close>

definition fold_X :: "space \<Rightarrow> 'a ndarray \<Rightarrow> error + 'a ndarray" where
  "fold_X S X = np_reshape X (folded_shape S)"

definition unfold_X :: "space \<Rightarrow> 'a ndarray \<Rightarrow> error + 'a ndarray" where
  "unfold_X S X = np_reshape X (shape_sp S)"

subsection \<open>Index arithmetic of row-major arrays\<close>

text \<open>
  \<open>ravel s I\<close> is the position of the element with multi-index \<open>I\<close> in the row-major
  data of an array of shape \<open>s\<close>; \<open>unravel s j\<close> is the multi-index at position \<open>j\<close>.
\<close>

fun ravel :: "nat list \<Rightarrow> nat list \<Rightarrow> nat" where
  "ravel (d # ds) (i # is) = i * prod_list ds + ravel ds is"
| "ravel _ _ = 0"

fun unravel :: "nat list \<Rightarrow> nat \<Rightarrow> nat list" where
  "unravel [] j = []"
| "unravel (d # ds) j = (j div prod_list ds) # unravel ds (j mod prod_list ds)"

fun valid_index :: "nat list \<Rightarrow> nat list \<Rightarrow> bool" where
  "valid_index [] [] \<longleftrightarrow> True"
| "valid_index (d # ds) (i # is) \<longleftrightarrow> i < d \<and> valid_index ds is"
| "valid_index _ _ \<longleftrightarrow> False"

text \<open>\<^verbatim>\<open>list.index\<close>: the first position of an element, ValueError when it is absent.\<close>

fun first_index :: "'a list \<Rightarrow> 'a \<Rightarrow> nat" where
  "first_index [] x = 0"
| "first_index (y # ys) x = (if y = x then 0 else Suc (first_index ys x))"

definition index_of :: "'a list \<Rightarrow> 'a \<Rightarrow> error + nat" where
  "index_of xs x = (if x \<in> set xs then Inr (first_index xs x) else Inl ValueError)"

fun map_err :: "('a \<Rightarrow> error + 'b) \<Rightarrow> 'a list \<Rightarrow> error + 'b list" where
  "map_err f [] = Inr []"
| "map_err f (x # xs) =
     bind_err (f x) (\<lambda>y. bind_err (map_err f xs) (\<lambda>ys. Inr (y # ys)))"

text \<open>
  \<^verbatim>\<open>np.transpose(X, perm)\<close>: dimension \<open>k\<close> of the result is dimension \<open>perm ! k\<close> of
  \<open>X\<close>, and the element of the result at multi-index \<open>J\<close> is the element of \<open>X\<close> at
  the multi-index \<open>I\<close> with \<open>I ! (perm ! k) = J ! k\<close>. numpy refuses a list that is not
  a permutation of the dimensions.
\<close>

definition source_index :: "nat list \<Rightarrow> nat list \<Rightarrow> nat list" where
  "source_index perm J = map (\<lambda>i. J ! first_index perm i) [0..<length perm]"

definition np_transpose :: "'a ndarray \<Rightarrow> nat list \<Rightarrow> error + 'a ndarray" where
  "np_transpose X perm =
     (let s = shape X; n = length s in
      if length perm \<noteq> n \<or> (\<exists>p \<in> set perm. n \<le> p) \<or> \<not> distinct perm then Inl ValueError
      else let rs = map (\<lambda>p. s ! p) perm in
        Inr \<lparr>shape = rs,
             data = map (\<lambda>j. data X ! ravel s (source_index perm (unravel rs j)))
                      [0..<prod_list rs]\<rparr>)"

text \<open>
  \<^verbatim>\<open>np.concatenate(arrs, axis=k)\<close>: the arrays agree in every dimension but \<open>k\<close>; for
  each index of the dimensions before \<open>k\<close>, the blocks of the arrays follow one another.
\<close>

definition block :: "'a ndarray \<Rightarrow> nat \<Rightarrow> nat \<Rightarrow> 'a list" where
  "block B k out = (let len = prod_list (drop k (shape B)) in take len (drop (out * len) (data B)))"

definition np_concatenate :: "'a ndarray list \<Rightarrow> nat \<Rightarrow> error + 'a ndarray" where
  "np_concatenate arrs k =
     (case arrs of
        [] \<Rightarrow> Inl ValueError
      | A # _ \<Rightarrow>
          if length (shape A) \<le> k then Inl IndexError
          else if \<exists>B \<in> set arrs. (shape B)[k := 0] \<noteq> (shape A)[k := 0] then Inl ValueError
          else
            Inr \<lparr>shape = (shape A)[k := sum_list (map (\<lambda>B. shape B ! k) arrs)],
                 data = concat (map (\<lambda>out. concat (map (\<lambda>B. block B k out) arrs))
                                  [0..<prod_list (take k (shape A))])\<rparr>)"

subsection \<open>transform\<close>

text \<open>
  The loop of \<^verbatim>\<open>transform\<close> runs over a Python set, whose iteration order the language
  leaves open. The order is a parameter of the model: \<open>set_order xs\<close> is the order in
  which the set of the elements \<open>xs\<close> is iterated. \<open>expand\<close> is the branch that appends
  the missing leaves to a copy of the axes and of the extent dictionary.
\<close>

definition set_order_ok :: "(label list \<Rightarrow> label list) \<Rightarrow> bool" where
  "set_order_ok set_order \<longleftrightarrow>
     (\<forall>xs. distinct xs \<longrightarrow> distinct (set_order xs) \<and> set (set_order xs) = set xs)"

definition missing_axes :: "(label list \<Rightarrow> label list) \<Rightarrow> space \<Rightarrow> label list \<Rightarrow> label list" where
  "missing_axes set_order S tgt =
     set_order (remdups (filter (\<lambda>ax. ax \<notin> set (folded_axes S)) tgt))"

definition expand :: "(label list \<Rightarrow> label list) \<Rightarrow> space \<Rightarrow> label list \<Rightarrow> space" where
  "expand set_order S tgt =
     \<lparr>axes = axes S @ map Name (missing_axes set_order S tgt),
      extent = foldl (\<lambda>e ax. od_set e ax 1) (extent S) (missing_axes set_order S tgt)\<rparr>"

definition new_space_of :: "space \<Rightarrow> axis list \<Rightarrow> space" where
  "new_space_of S new_axes =
     \<lparr>axes = new_axes,
      extent = od_of_pairs (map (\<lambda>ax. (ax, od_get (extent S) ax 1)) (fold_axes new_axes))\<rparr>"

definition expanded_space_of :: "(label list \<Rightarrow> label list) \<Rightarrow> space \<Rightarrow> axis list \<Rightarrow> space" where
  "expanded_space_of set_order S new_axes =
     (if set (folded_axes S) \<subseteq> set (folded_axes (new_space_of S new_axes))
      then expand set_order S (folded_axes (new_space_of S new_axes))
      else S)"

definition transform ::
  "(label list \<Rightarrow> label list) \<Rightarrow> space \<Rightarrow> 'a ndarray \<Rightarrow> axis list \<Rightarrow> error + ('a ndarray \<times> space)" where
  "transform set_order S X new_axes =
     (let new_space = new_space_of S new_axes;
          expanded_space = expanded_space_of set_order S new_axes
      in if set (folded_axes expanded_space) \<noteq> set (folded_axes new_space)
         then Inl IncompatibleAxes
         else
           bind_err (fold_X expanded_space X) (\<lambda>X1.
           bind_err (map_err (index_of (folded_axes expanded_space)) (folded_axes new_space)) (\<lambda>perm.
           bind_err (np_transpose X1 perm) (\<lambda>X2.
           bind_err (unfold_X new_space X2) (\<lambda>X3.
           Inr (X3, new_space))))))"

subsection \<open>broadcast\<close>

text \<open>
  The keyword arguments \<^verbatim>\<open>**replicas\<close> are a dictionary from labels to counts, given here
  as the list of its items in iteration order. \<^verbatim>\<open>[X]*times\<close> is \<open>replicate times X\<close>.
\<close>

fun fold_err :: "('s \<Rightarrow> 'a \<Rightarrow> error + 's) \<Rightarrow> 'a list \<Rightarrow> 's \<Rightarrow> error + 's" where
  "fold_err f [] s = Inr s"
| "fold_err f (x # xs) s = bind_err (f s x) (\<lambda>s'. fold_err f xs s')"

definition broadcast_extent :: "space \<Rightarrow> (label \<times> nat) list \<Rightarrow> error + odict" where
  "broadcast_extent S replicas =
     bind_err
       (map_err (\<lambda>ax. bind_err (od_item (extent S) ax)
                   (\<lambda>v. Inr (ax, v * od_get replicas ax 1))) (fold_axes (axes S)))
       (\<lambda>ps. Inr (od_of_pairs ps))"

definition broadcast ::
  "space \<Rightarrow> 'a ndarray \<Rightarrow> (label \<times> nat) list \<Rightarrow> error + ('a ndarray \<times> space)" where
  "broadcast S X replicas =
     bind_err (broadcast_extent S replicas) (\<lambda>new_extent.
     let new_space = \<lparr>axes = axes S, extent = new_extent\<rparr> in
     bind_err (fold_X S X) (\<lambda>X1.
     bind_err (fold_err (\<lambda>Xc (ax, times).
                 bind_err (index_of (folded_axes S) ax) (\<lambda>k.
                 np_concatenate (replicate times Xc) k)) replicas X1) (\<lambda>X2.
     if nd_size X2 \<noteq> size_sp new_space then Inl InconsistentSize
     else bind_err (unfold_X new_space X2) (\<lambda>X3. Inr (X3, new_space)))))"

text \<open>
  The invariants of the specification's data model: the keys of the extent dictionary are
  the leaf labels of the axes, in folding order, and no label occurs twice.
\<close>

definition wf_space :: "space \<Rightarrow> bool" where
  "wf_space S \<longleftrightarrow> map fst (extent S) = folded_axes S \<and> distinct (folded_axes S)"

subsection \<open>Objects that share a dictionary: \<^verbatim>\<open>set_extent\<close> and \<^verbatim>\<open>clone\<close>\<close>

text \<open>
  \<^verbatim>\<open>transform\<close>, \<^verbatim>\<open>broadcast\<close> and \<^verbatim>\<open>infer\<close> build a new dictionary for every space
  they return and write to no existing one, so they are modelled on values. \<^verbatim>\<open>set_extent\<close>
  writes to a dictionary through a reference. Here a \<^verbatim>\<open>Space\<close> object holds its axes and
  the address of its \<^verbatim>\<open>_extent\<close> dictionary, and the store maps addresses to
  dictionaries. \<^verbatim>\<open>clone\<close> is \<^verbatim>\<open>Space(self._axes, self._extent)\<close>: a new object with the
  same two references. The keyword arguments of \<^verbatim>\<open>set_extent\<close> are the list of their
  items in iteration order.
\<close>

type_synonym ref = nat

record space_obj =
  obj_axes :: "axis list"
  obj_extent :: ref

type_synonym store = "ref \<Rightarrow> odict option"

definition clone :: "space_obj \<Rightarrow> space_obj" where
  "clone self = \<lparr>obj_axes = obj_axes self, obj_extent = obj_extent self\<rparr>"

definition store_setitem :: "store \<Rightarrow> ref \<Rightarrow> label \<Rightarrow> nat \<Rightarrow> store" where
  "store_setitem h r k v = (case h r of None \<Rightarrow> h | Some d \<Rightarrow> h(r \<mapsto> od_set d k v))"

definition set_extent :: "store \<Rightarrow> space_obj \<Rightarrow> (label \<times> nat) list \<Rightarrow> store \<times> space_obj" where
  "set_extent h self extents =
     (let space = clone self
      in (foldl (\<lambda>h (ax, ex). store_setitem h (obj_extent space) ax ex) h extents, space))"

text \<open>The extent dictionary an object has in a store.\<close>

definition extent_in :: "store \<Rightarrow> space_obj \<Rightarrow> odict option" where
  "extent_in h self = h (obj_extent self)"

section \<open>Minibatch providers\<close>

text \<open>
  The providers are Python 2 code: \<^verbatim>\<open>/\<close> on integers is floor division and raises
  ZeroDivisionError on a zero divisor, as \<^verbatim>\<open>%\<close> does. Integers are unbounded.
\<close>

definition py_div :: "int \<Rightarrow> int \<Rightarrow> error + int" where
  "py_div a b = (if b = 0 then Inl ZeroDivisionError else Inr (a div b))"

definition py_mod :: "int \<Rightarrow> int \<Rightarrow> error + int" where
  "py_mod a b = (if b = 0 then Inl ZeroDivisionError else Inr (a mod b))"

text \<open>
  \<^verbatim>\<open>xs[a:b]\<close>: a negative bound counts from the end, and both bounds are clamped to the
  sequence.
\<close>

definition py_slice :: "'a list \<Rightarrow> int \<Rightarrow> int \<Rightarrow> 'a list" where
  "py_slice xs a b =
     (let n = int (length xs);
          lo = (if a < 0 then max (a + n) 0 else min a n);
          hi = (if b < 0 then max (b + n) 0 else min b n)
      in take (nat (hi - lo)) (drop (nat lo) xs))"

subsection \<open>Arrays along their first axis\<close>

text \<open>
  The providers slice and permute their arrays along the first axis only. \<open>nd_rows\<close>
  are the sub-arrays \<^verbatim>\<open>X[0], X[1], ...\<close> as runs of the row-major data; an array of no
  dimension has no first axis, and numpy raises IndexError.
\<close>

definition nd_rows :: "'a ndarray \<Rightarrow> 'a list list" where
  "nd_rows X =
     (let inner = prod_list (tl (shape X))
      in map (\<lambda>i. take inner (drop (i * inner) (data X))) [0..<hd (shape X)])"

definition nd_of_rows :: "nat list \<Rightarrow> 'a list list \<Rightarrow> 'a ndarray" where
  "nd_of_rows row_shape rows = \<lparr>shape = length rows # row_shape, data = concat rows\<rparr>"

definition shape0 :: "'a ndarray \<Rightarrow> error + nat" where
  "shape0 X = (case shape X of [] \<Rightarrow> Inl IndexError | d # _ \<Rightarrow> Inr d)"

definition nd_slice :: "'a ndarray \<Rightarrow> int \<Rightarrow> int \<Rightarrow> error + 'a ndarray" where
  "nd_slice X a b =
     (if shape X = [] then Inl IndexError
      else Inr (nd_of_rows (tl (shape X)) (py_slice (nd_rows X) a b)))"

text \<open>\<^verbatim>\<open>X[perm]\<close> for a list of row numbers.\<close>

definition nd_take :: "'a ndarray \<Rightarrow> nat list \<Rightarrow> error + 'a ndarray" where
  "nd_take X perm =
     (if shape X = [] \<or> (\<exists>i \<in> set perm. hd (shape X) \<le> i) then Inl IndexError
      else Inr (nd_of_rows (tl (shape X)) (map (\<lambda>i. nd_rows X ! i) perm)))"

subsection \<open>MinibatchDataProvider\<close>

record ('a, 'y, 'l) minibatch_provider =
  mb_X :: "'a ndarray"
  mb_Y :: "'y ndarray"
  mb_lengths :: "'l ndarray"
  mb_batch_size :: int
  mb_batch_index :: int
  mb_batches_per_epoch :: int

record 'l meta =
  meta_lengths :: 'l
  space_below :: space

definition MinibatchDataProvider_init ::
  "'a ndarray \<Rightarrow> 'y ndarray \<Rightarrow> 'l ndarray \<Rightarrow> int \<Rightarrow> error + ('a, 'y, 'l) minibatch_provider" where
  "MinibatchDataProvider_init X Y lengths batch_size =
     bind_err (shape0 X) (\<lambda>D.
     bind_err (py_div (int D) batch_size) (\<lambda>q.
     Inr \<lparr>mb_X = X, mb_Y = Y, mb_lengths = lengths, mb_batch_size = batch_size,
          mb_batch_index = - 1, mb_batches_per_epoch = q\<rparr>))"

text \<open>
  \<^verbatim>\<open>_shuffle_data\<close> draws \<^verbatim>\<open>np.random.permutation(self.X.shape[0])\<close>. The draw is the
  parameter \<open>perm\<close> of the model: a permutation of the row numbers of \<open>X\<close>.
\<close>

definition mb_shuffle_data ::
  "nat list \<Rightarrow> ('a, 'y, 'l) minibatch_provider \<Rightarrow> error + ('a, 'y, 'l) minibatch_provider" where
  "mb_shuffle_data perm p =
     bind_err (nd_take (mb_X p) perm) (\<lambda>X'.
     bind_err (nd_take (mb_Y p) perm) (\<lambda>Y'.
     bind_err (nd_take (mb_lengths p) perm) (\<lambda>L'.
     Inr (p\<lparr>mb_X := X', mb_Y := Y', mb_lengths := L'\<rparr>))))"

definition mb_prepare_for_next_batch ::
  "nat list \<Rightarrow> ('a, 'y, 'l) minibatch_provider \<Rightarrow> error + ('a, 'y, 'l) minibatch_provider" where
  "mb_prepare_for_next_batch perm p =
     bind_err (py_mod (mb_batch_index p + 1) (mb_batches_per_epoch p)) (\<lambda>i.
     let p1 = p\<lparr>mb_batch_index := i\<rparr> in
     if i = 0 then mb_shuffle_data perm p1 else Inr p1)"

definition mb_next_batch ::
  "nat list \<Rightarrow> ('a, 'y, 'l) minibatch_provider \<Rightarrow>
     error + (('a ndarray \<times> 'y ndarray \<times> 'l ndarray meta) \<times> ('a, 'y, 'l) minibatch_provider)" where
  "mb_next_batch perm p =
     bind_err (mb_prepare_for_next_batch perm p) (\<lambda>p1.
     let batch_start = mb_batch_index p1 * mb_batch_size p1;
         batch_end = batch_start + mb_batch_size p1 in
     bind_err (nd_slice (mb_X p1) batch_start batch_end) (\<lambda>X_batch.
     bind_err (nd_slice (mb_Y p1) batch_start batch_end) (\<lambda>Y_batch.
     bind_err (nd_slice (mb_lengths p1) batch_start batch_end) (\<lambda>lengths_batch.
     bind_err (infer X_batch [''b'', ''w'']) (\<lambda>sp.
     Inr ((X_batch, Y_batch, \<lparr>meta_lengths = lengths_batch, space_below = sp\<rparr>), p1))))))"

text \<open>
  The provider after \<open>n\<close> calls of \<^verbatim>\<open>next_batch\<close>, the \<open>k\<close>-th call (counted from 0)
  drawing the permutation \<open>perms k\<close> when it shuffles.
\<close>

fun mb_after :: "(nat \<Rightarrow> nat list) \<Rightarrow> nat \<Rightarrow> ('a, 'y, 'l) minibatch_provider \<Rightarrow>
     error + ('a, 'y, 'l) minibatch_provider" where
  "mb_after perms 0 p = Inr p"
| "mb_after perms (Suc n) p =
     bind_err (mb_after perms n p) (\<lambda>q.
     bind_err (mb_next_batch (perms n) q) (\<lambda>(b, q'). Inr q'))"

text \<open>
  What \<^verbatim>\<open>np.random.permutation(D)\<close> can return, and the row positions
  \<open>batch_start, ..., batch_end - 1\<close> that \<^verbatim>\<open>next_batch\<close> slices for the current batch
  index.
\<close>

definition is_permutation :: "nat list \<Rightarrow> nat \<Rightarrow> bool" where
  "is_permutation perm D \<longleftrightarrow> distinct perm \<and> set perm = {0..<D}"

definition mb_batch_positions :: "('a, 'y, 'l) minibatch_provider \<Rightarrow> nat list" where
  "mb_batch_positions p =
     [nat (mb_batch_index p * mb_batch_size p) ..<
      nat (mb_batch_index p * mb_batch_size p + mb_batch_size p)]"

text \<open>The row positions sliced by call \<open>n\<close> of \<^verbatim>\<open>next_batch\<close> (counted from 0).\<close>

definition mb_call_positions ::
  "(nat \<Rightarrow> nat list) \<Rightarrow> ('a, 'y, 'l) minibatch_provider \<Rightarrow> nat \<Rightarrow> nat list" where
  "mb_call_positions perms p n =
     (case mb_after perms (Suc n) p of Inl e \<Rightarrow> [] | Inr q \<Rightarrow> mb_batch_positions q)"

subsection \<open>PaddedSequenceMinibatchProvider\<close>

record 'a padded_provider =
  ps_X :: "'a list list"
  ps_batch_size :: int
  ps_padding :: 'a
  ps_shuffle :: bool
  ps_batch_index :: int
  ps_batches_per_epoch :: int

definition PaddedSequenceMinibatchProvider_init ::
  "'a list list \<Rightarrow> int \<Rightarrow> 'a \<Rightarrow> bool \<Rightarrow> error + 'a padded_provider" where
  "PaddedSequenceMinibatchProvider_init X batch_size padding shuffle =
     bind_err (py_div (int (length X)) batch_size) (\<lambda>q.
     Inr \<lparr>ps_X = X, ps_batch_size = batch_size, ps_padding = padding, ps_shuffle = shuffle,
          ps_batch_index = - 1, ps_batches_per_epoch = q\<rparr>)"

text \<open>\<^verbatim>\<open>random.shuffle(self.X)\<close> reorders the list by the drawn permutation \<open>perm\<close>.\<close>

definition ps_prepare_for_next_batch :: "nat list \<Rightarrow> 'a padded_provider \<Rightarrow> error + 'a padded_provider" where
  "ps_prepare_for_next_batch perm p =
     bind_err (py_mod (ps_batch_index p + 1) (ps_batches_per_epoch p)) (\<lambda>i.
     let p1 = p\<lparr>ps_batch_index := i\<rparr> in
     if i = 0 \<and> ps_shuffle p1 then Inr (p1\<lparr>ps_X := map (\<lambda>i. ps_X p1 ! i) perm\<rparr>) else Inr p1)"

subsection \<open>LabelledSequenceMinibatchProvider\<close>

record 'a labelled_provider =
  ls_X :: "'a list list"
  ls_Y :: "int list"
  ls_batch_size :: int
  ls_padding :: 'a
  ls_shuffle :: bool
  ls_batch_index :: int
  ls_batches_per_epoch :: int

definition LabelledSequenceMinibatchProvider_init ::
  "'a list list \<Rightarrow> int list \<Rightarrow> int \<Rightarrow> 'a \<Rightarrow> bool \<Rightarrow> error + 'a labelled_provider" where
  "LabelledSequenceMinibatchProvider_init X Y batch_size padding shuffle =
     bind_err (py_div (int (length X)) batch_size) (\<lambda>q.
     Inr \<lparr>ls_X = X, ls_Y = Y, ls_batch_size = batch_size, ls_padding = padding,
          ls_shuffle = shuffle, ls_batch_index = - 1, ls_batches_per_epoch = q\<rparr>)"

text \<open>
  \<^verbatim>\<open>_shuffle_data\<close> zips \<open>X\<close> and \<open>Y\<close>, shuffles the pairs by the drawn permutation and
  unzips them; unpacking the unzipped result of no pair raises ValueError.
\<close>

definition ls_shuffle_data :: "nat list \<Rightarrow> 'a labelled_provider \<Rightarrow> error + 'a labelled_provider" where
  "ls_shuffle_data perm p =
     (let combined = zip (ls_X p) (ls_Y p);
          shuffled = map (\<lambda>i. combined ! i) perm
      in if shuffled = [] then Inl ValueError
         else Inr (p\<lparr>ls_X := map fst shuffled, ls_Y := map snd shuffled\<rparr>))"

definition ls_prepare_for_next_batch :: "nat list \<Rightarrow> 'a labelled_provider \<Rightarrow> error + 'a labelled_provider" where
  "ls_prepare_for_next_batch perm p =
     bind_err (py_mod (ls_batch_index p + 1) (ls_batches_per_epoch p)) (\<lambda>i.
     let p1 = p\<lparr>ls_batch_index := i\<rparr> in
     if i = 0 \<and> ls_shuffle p1 then ls_shuffle_data perm p1 else Inr p1)"

definition add_padding :: "'a \<Rightarrow> 'a list \<Rightarrow> int \<Rightarrow> 'a list" where
  "add_padding padding x max_length = x @ replicate (nat (max_length - int (length x))) padding"

text \<open>
  \<^verbatim>\<open>np.max\<close> of no element raises ValueError. \<^verbatim>\<open>np.arange(n)\<close> is \<open>0, ..., n - 1\<close>, empty
  for \<open>n \<le> 0\<close>. \<^verbatim>\<open>np.equal.outer(Y, r).astype(np.float)\<close> is the matrix with a row for every
  element of \<open>Y\<close> and a column for every element of \<open>r\<close>, holding 1.0 where the two are
  equal and 0.0 elsewhere.
\<close>

definition np_max :: "int list \<Rightarrow> error + int" where
  "np_max ys = (case ys of [] \<Rightarrow> Inl ValueError | y # ys' \<Rightarrow> Inr (fold max ys' y))"

definition np_arange :: "int \<Rightarrow> int list" where
  "np_arange n = map int [0..<nat n]"

definition equal_outer :: "int list \<Rightarrow> int list \<Rightarrow> real ndarray" where
  "equal_outer ys r =
     \<lparr>shape = [length ys, length r],
      data = concat (map (\<lambda>y. map (\<lambda>c. if y = c then 1 else 0) r) ys)\<rparr>"

definition ls_next_batch ::
  "nat list \<Rightarrow> 'a labelled_provider \<Rightarrow>
     error + (('a list list \<times> real ndarray \<times> nat list meta) \<times> 'a labelled_provider)" where
  "ls_next_batch perm p =
     bind_err (ls_prepare_for_next_batch perm p) (\<lambda>p1.
     let batch_start = ls_batch_index p1 * ls_batch_size p1;
         batch_end = batch_start + ls_batch_size p1;
         X_batch = py_slice (ls_X p1) batch_start batch_end;
         Y_batch = py_slice (ls_Y p1) batch_start batch_end in
     bind_err (np_max Y_batch) (\<lambda>m.
     let Y_onehot = equal_outer Y_batch (np_arange (m + 1));
         lengths_batch = map length X_batch in
     bind_err (np_max (map int lengths_batch)) (\<lambda>max_length_batch.
     let X_padded = map (\<lambda>x. add_padding (ls_padding p1) x max_length_batch) X_batch in
     Inr ((X_padded, Y_onehot,
           \<lparr>meta_lengths = lengths_batch,
            space_below = \<lparr>axes = [Name ''b'', Name ''w''],
                           extent = od_of_pairs [(''b'', length X_padded),
                                                 (''w'', nat max_length_batch)]\<rparr>\<rparr>), p1))))"

section \<open>Ordered dictionaries: basic facts\<close>

lemma od_set_keys_new:
  "k \<notin> set (map fst d) \<Longrightarrow> od_set d k v = d @ [(k, v)]"
  by (induction d) auto

lemma foldl_od_set_distinct:
  "distinct (map fst ps) \<Longrightarrow> set (map fst ps) \<inter> set (map fst d) = {} \<Longrightarrow>
   foldl (\<lambda>d (k, v). od_set d k v) d ps = d @ ps"
proof (induction ps arbitrary: d)
  case Nil
  then show ?case by simp
next
  case (Cons p ps)
  obtain k v where p: "p = (k, v)" by (cases p)
  from Cons.prems have knew: "k \<notin> set (map fst d)" by (auto simp: p)
  have step: "od_set d k v = d @ [(k, v)]" using knew by (rule od_set_keys_new)
  have "foldl (\<lambda>d (k, v). od_set d k v) (d @ [(k, v)]) ps = (d @ [(k, v)]) @ ps"
    using Cons.prems by (intro Cons.IH) (auto simp: p)
  then show ?case by (simp add: p step)
qed

lemma od_of_pairs_distinct:
  "distinct (map fst ps) \<Longrightarrow> od_of_pairs ps = ps"
  unfolding od_of_pairs_def using foldl_od_set_distinct [of ps "[]"] by simp

section \<open>Inference of a space from an array\<close>

text \<open>
  C7. \<^verbatim>\<open>Space.infer(X, axes)\<close> fails, with the assertion the specification calls
  ShapeMismatch, if and only if the number of labels differs from the rank of the array.
  Otherwise it returns a space over these axes, and for distinct labels its extent is the
  labels paired, in order, with the dimensions of the array.
\<close>

theorem infer_shape_mismatch_iff:
  "(infer X axs = Inl ShapeMismatch \<longleftrightarrow> length axs \<noteq> length (shape X)) \<and>
   ((\<exists>e. infer X axs = Inl e) \<longleftrightarrow> length axs \<noteq> length (shape X)) \<and>
   (length axs = length (shape X) \<longrightarrow> distinct axs \<longrightarrow>
      infer X axs = Inr \<lparr>axes = map Name axs, extent = zip axs (shape X)\<rparr> \<and>
      (\<forall>i < length axs. map_of (extent \<lparr>axes = map Name axs, extent = zip axs (shape X)\<rparr>) (axs ! i)
          = Some (shape X ! i)))"
proof (intro conjI impI)
  show "infer X axs = Inl ShapeMismatch \<longleftrightarrow> length axs \<noteq> length (shape X)"
    by (auto simp: infer_def)
  show "(\<exists>e. infer X axs = Inl e) \<longleftrightarrow> length axs \<noteq> length (shape X)"
    by (auto simp: infer_def)
next
  assume len: "length axs = length (shape X)" and dist: "distinct axs"
  have keys: "map fst (zip axs (shape X)) = axs" using len by simp
  have "od_of_pairs (zip axs (shape X)) = zip axs (shape X)"
    by (rule od_of_pairs_distinct) (simp add: keys dist)
  then show "infer X axs = Inr \<lparr>axes = map Name axs, extent = zip axs (shape X)\<rparr>"
    using len by (simp add: infer_def)
  show "\<forall>i < length axs. map_of (extent \<lparr>axes = map Name axs, extent = zip axs (shape X)\<rparr>) (axs ! i)
          = Some (shape X ! i)"
  proof (intro allI impI)
    fix i assume i: "i < length axs"
    have "map_of (zip axs (shape X)) (axs ! i) = Some (shape X ! i)"
      using dist len i by (simp add: map_of_zip_nth)
    then show "map_of (extent \<lparr>axes = map Name axs, extent = zip axs (shape X)\<rparr>) (axs ! i)
          = Some (shape X ! i)" by simp
  qed
qed

theorem infer_shape_mismatch_iff_witness:
  "infer \<lparr>shape = [4, 10], data = replicate 40 (0::int)\<rparr> [''b'', ''w'']
     = Inr \<lparr>axes = [Name ''b'', Name ''w''], extent = [(''b'', 4), (''w'', 10)]\<rparr> \<and>
   infer \<lparr>shape = [4, 10], data = replicate 40 (0::int)\<rparr> [''b''] = Inl ShapeMismatch"
  using infer_shape_mismatch_iff [of "\<lparr>shape = [4, 10], data = replicate 40 (0::int)\<rparr>" "[''b'', ''w'']"]
    infer_shape_mismatch_iff [of "\<lparr>shape = [4, 10], data = replicate 40 (0::int)\<rparr>" "[''b'']"]
  by simp

section \<open>Extents of grouped axes\<close>

lemma prod_filter_split:
  "(\<forall>p \<in> set E. \<not> (P p \<and> Q p)) \<Longrightarrow>
   prod_list (map snd (filter (\<lambda>p. P p \<or> Q p) E)) =
   prod_list (map snd (filter P E)) * (prod_list (map snd (filter Q E)) :: nat)"
  by (induction E) auto

lemma size_of_axis_Cons:
  assumes "l \<notin> set g"
  shows "size_of_axis S (Group (l # g)) = size_of_axis S (Group [l]) * size_of_axis S (Group g)"
proof -
  have "filter (\<lambda>(k, v). k \<in> set (l # g)) (extent S) =
        filter (\<lambda>p. (fst p = l) \<or> (fst p \<in> set g)) (extent S)"
    by (rule filter_cong) auto
  moreover have "filter (\<lambda>(k, v). k \<in> set [l]) (extent S) = filter (\<lambda>p. fst p = l) (extent S)"
    by (rule filter_cong) auto
  moreover have "filter (\<lambda>(k, v). k \<in> set g) (extent S) = filter (\<lambda>p. fst p \<in> set g) (extent S)"
    by (rule filter_cong) auto
  moreover have "prod_list (map snd (filter (\<lambda>p. (fst p = l) \<or> (fst p \<in> set g)) (extent S))) =
     prod_list (map snd (filter (\<lambda>p. fst p = l) (extent S))) *
     prod_list (map snd (filter (\<lambda>p. fst p \<in> set g) (extent S)))"
    using assms by (intro prod_filter_split) auto
  ultimately show ?thesis by (simp add: size_of_axis_def)
qed

lemma size_of_axis_Name_char: "size_of_axis S (Name [c]) = size_of_axis S (Group [[c]])"
  unfolding size_of_axis_def by simp

lemma size_of_axis_Name: "length l = 1 \<Longrightarrow> size_of_axis S (Name l) = size_of_axis S (Group [l])"
proof -
  assume "length l = 1"
  then obtain c where "l = [c]" by (cases l) auto
  then show ?thesis using size_of_axis_Name_char by simp
qed

lemma size_of_axis_Group_prod:
  "distinct g \<Longrightarrow> size_of_axis S (Group g) = prod_list (map (\<lambda>l. size_of_axis S (Group [l])) g)"
proof (induction g)
  case Nil
  then show ?case by (simp add: size_of_axis_def)
next
  case (Cons l g)
  have "size_of_axis S (Group (l # g)) = size_of_axis S (Group [l]) * size_of_axis S (Group g)"
    using Cons.prems by (intro size_of_axis_Cons) simp
  then show ?case using Cons by simp
qed

lemma np_prod_int64_exact:
  assumes "prod_list vs < 2 ^ 63"
  shows "np_prod_int64 vs = int (prod_list vs)"
proof -
  have "int (prod_list vs) < int (2 ^ 63)" using assms by (simp only: of_nat_less_iff)
  then have lt: "int (prod_list vs) < 2 ^ 63" by simp
  have "(int (prod_list vs) + 2 ^ 63) mod 2 ^ 64 = int (prod_list vs) + 2 ^ 63"
    using lt by (intro mod_pos_pos_trivial) simp_all
  then show ?thesis by (simp add: np_prod_int64_def)
qed

lemma size_of_axis_int64_exact:
  "size_of_axis S ax < 2 ^ 63 \<Longrightarrow> size_of_axis_int64 S ax = int (size_of_axis S ax)"
  unfolding size_of_axis_def size_of_axis_int64_def by (rule np_prod_int64_exact)

lemma size_of_axis_int64_Name:
  assumes "length l = 1"
  shows "size_of_axis_int64 S (Name l) = size_of_axis_int64 S (Group [l])"
proof -
  from assms obtain c where "l = [c]" by (cases l) auto
  then show ?thesis by (simp add: size_of_axis_int64_def)
qed

lemma int_prod_list: "int (prod_list xs) = prod_list (map int xs)"
  by (induction xs) simp_all

text \<open>
  C6, as stated, fails in two ways. A leaf whose label has more than one
  character, passed to \<^verbatim>\<open>get_extent\<close> as its label, is split into characters by
  \<^verbatim>\<open>list(ax)\<close> and has the extent 1, whatever the extent of the leaf: in the space with
  the group \<^verbatim>\<open>('b', 'xy')\<close> and the extents 2 and 3, the group has the extent 6 and the
  leaves \<^verbatim>\<open>'b'\<close> and \<^verbatim>\<open>'xy'\<close> have the extents 2 and 1. And the product of the group is
  computed in 64 bits: with the extents \<open>2 ^ 32\<close> and \<open>2 ^ 32\<close> the group has the extent
  0, while the extents of its leaves, \<open>2 ^ 32\<close> each, multiply to \<open>2 ^ 64\<close>.
\<close>

theorem get_extent_group_not_product:
  "get_extent \<lparr>axes = [Group [''b'', ''xy'']], extent = [(''b'', 2), (''xy'', 3)]\<rparr>
     [Group [''b'', ''xy'']] = [6] \<and>
   get_extent \<lparr>axes = [Group [''b'', ''xy'']], extent = [(''b'', 2), (''xy'', 3)]\<rparr>
     [Name ''b''] = [2] \<and>
   get_extent \<lparr>axes = [Group [''b'', ''xy'']], extent = [(''b'', 2), (''xy'', 3)]\<rparr>
     [Name ''xy''] = [1] \<and>
   get_extent \<lparr>axes = [Group [''b'', ''xy'']], extent = [(''b'', 2), (''xy'', 3)]\<rparr>
     [Group [''b'', ''xy'']]
     \<noteq> [prod_list (concat (map (\<lambda>l. get_extent
          \<lparr>axes = [Group [''b'', ''xy'']], extent = [(''b'', 2), (''xy'', 3)]\<rparr> [Name l])
          [''b'', ''xy'']))] \<and>
   get_extent \<lparr>axes = [Group [''b'', ''w'']], extent = [(''b'', 2 ^ 32), (''w'', 2 ^ 32)]\<rparr>
     [Group [''b'', ''w'']] = [0] \<and>
   get_extent \<lparr>axes = [Group [''b'', ''w'']], extent = [(''b'', 2 ^ 32), (''w'', 2 ^ 32)]\<rparr>
     [Name ''b''] = [2 ^ 32] \<and>
   get_extent \<lparr>axes = [Group [''b'', ''w'']], extent = [(''b'', 2 ^ 32), (''w'', 2 ^ 32)]\<rparr>
     [Name ''w''] = [2 ^ 32] \<and>
   get_extent \<lparr>axes = [Group [''b'', ''w'']], extent = [(''b'', 2 ^ 32), (''w'', 2 ^ 32)]\<rparr>
     [Group [''b'', ''w'']]
     \<noteq> [prod_list (concat (map (\<lambda>l. get_extent
          \<lparr>axes = [Group [''b'', ''w'']], extent = [(''b'', 2 ^ 32), (''w'', 2 ^ 32)]\<rparr> [Name l])
          [''b'', ''w'']))] \<and>
   get_extent \<lparr>axes = [Group [''b'', ''w'']], extent = [(''b'', 2 ^ 32), (''w'', 2 ^ 32)]\<rparr>
     [Group [''b'', ''w'']]
     \<noteq> [prod_list (concat (map (\<lambda>l. get_extent
          \<lparr>axes = [Group [''b'', ''w'']], extent = [(''b'', 2 ^ 32), (''w'', 2 ^ 32)]\<rparr> [Group [l]])
          [''b'', ''w'']))]"
  by (simp add: get_extent_def size_of_axis_int64_def np_prod_int64_def)

text \<open>
  C6, amended. For a group of distinct leaf labels such that the extent of each leaf
  and the product of the extents of the leaves are below \<open>2 ^ 63\<close>, \<^verbatim>\<open>get_extent\<close> of
  the group is the product of \<^verbatim>\<open>get_extent\<close> of its leaves taken one by one, each leaf
  given as a group of its own; when every label is a single character, each leaf can
  as well be given as its label.
\<close>

theorem get_extent_group_product:
  assumes d: "distinct g"
    and leaves: "\<forall>l \<in> set g. size_of_axis S (Group [l]) < 2 ^ 63"
    and whole: "size_of_axis S (Group g) < 2 ^ 63"
  shows "get_extent S [Group g] = [prod_list (concat (map (\<lambda>l. get_extent S [Group [l]]) g))] \<and>
         ((\<forall>l \<in> set g. length l = 1) \<longrightarrow>
            get_extent S [Group g] = [prod_list (concat (map (\<lambda>l. get_extent S [Name l]) g))] \<and>
            get_extent S [Group g] = [prod_list (get_extent S (map Name g))])"
proof (intro conjI impI)
  have c0: "concat (map (\<lambda>l. get_extent S [Group [l]]) g)
      = map (\<lambda>l. size_of_axis_int64 S (Group [l])) g"
    by (induction g) (auto simp: get_extent_def)
  have ex: "map (\<lambda>l. size_of_axis_int64 S (Group [l])) g
      = map (\<lambda>l. int (size_of_axis S (Group [l]))) g"
    using leaves by (intro map_cong) (auto simp: size_of_axis_int64_exact)
  have "size_of_axis_int64 S (Group g) = int (size_of_axis S (Group g))"
    using whole by (rule size_of_axis_int64_exact)
  also have "\<dots> = int (prod_list (map (\<lambda>l. size_of_axis S (Group [l])) g))"
    using size_of_axis_Group_prod [OF d, of S] by simp
  also have "\<dots> = prod_list (map (\<lambda>l. int (size_of_axis S (Group [l]))) g)"
    by (simp add: int_prod_list comp_def)
  finally have gp: "size_of_axis_int64 S (Group g)
      = prod_list (map (\<lambda>l. size_of_axis_int64 S (Group [l])) g)"
    by (simp only: ex)
  show g0: "get_extent S [Group g] = [prod_list (concat (map (\<lambda>l. get_extent S [Group [l]]) g))]"
    unfolding c0 using gp by (simp add: get_extent_def)
  assume one: "\<forall>l \<in> set g. length l = 1"
  have eq: "map (\<lambda>l. size_of_axis_int64 S (Name l)) g
      = map (\<lambda>l. size_of_axis_int64 S (Group [l])) g"
    using one by (intro map_cong) (auto simp: size_of_axis_int64_Name)
  have c: "concat (map (\<lambda>l. get_extent S [Name l]) g) = map (\<lambda>l. size_of_axis_int64 S (Name l)) g"
    by (induction g) (auto simp: get_extent_def)
  have m: "get_extent S (map Name g) = map (\<lambda>l. size_of_axis_int64 S (Name l)) g"
    by (simp add: get_extent_def comp_def)
  have gn: "get_extent S [Group g] = [prod_list (map (\<lambda>l. size_of_axis_int64 S (Name l)) g)]"
    unfolding eq using gp by (simp add: get_extent_def)
  show "get_extent S [Group g] = [prod_list (concat (map (\<lambda>l. get_extent S [Name l]) g))]"
    unfolding c by (rule gn)
  show "get_extent S [Group g] = [prod_list (get_extent S (map Name g))]"
    unfolding m by (rule gn)
qed

theorem get_extent_group_product_witness:
  "distinct [''b'', ''w''] \<and>
   size_of_axis \<lparr>axes = [Name ''b'', Name ''w''], extent = [(''b'', 4), (''w'', 10)]\<rparr> (Group [''b'']) < 2 ^ 63 \<and>
   size_of_axis \<lparr>axes = [Name ''b'', Name ''w''], extent = [(''b'', 4), (''w'', 10)]\<rparr> (Group [''w'']) < 2 ^ 63 \<and>
   size_of_axis \<lparr>axes = [Name ''b'', Name ''w''], extent = [(''b'', 4), (''w'', 10)]\<rparr> (Group [''b'', ''w'']) < 2 ^ 63 \<and>
   length ''b'' = 1 \<and> length ''w'' = 1 \<and>
   get_extent \<lparr>axes = [Name ''b'', Name ''w''], extent = [(''b'', 4), (''w'', 10)]\<rparr> [Group [''b'', ''w'']] = [40] \<and>
   get_extent \<lparr>axes = [Name ''b'', Name ''w''], extent = [(''b'', 4), (''w'', 10)]\<rparr> [Group [''b'']] = [4] \<and>
   get_extent \<lparr>axes = [Name ''b'', Name ''w''], extent = [(''b'', 4), (''w'', 10)]\<rparr> [Group [''w'']] = [10] \<and>
   get_extent \<lparr>axes = [Name ''b'', Name ''w''], extent = [(''b'', 4), (''w'', 10)]\<rparr> [Name ''b'', Name ''w''] = [4, 10] \<and>
   get_extent \<lparr>axes = [Name ''b'', Name ''w''], extent = [(''b'', 4), (''w'', 10)]\<rparr> [Group [''b'', ''w'']]
     = [prod_list (get_extent \<lparr>axes = [Name ''b'', Name ''w''], extent = [(''b'', 4), (''w'', 10)]\<rparr>
          (map Name [''b'', ''w'']))]"
proof -
  let ?S = "\<lparr>axes = [Name ''b'', Name ''w''], extent = [(''b'', 4), (''w'', 10)]\<rparr>"
  have d: "distinct [''b'', ''w'']" by simp
  have sb: "size_of_axis ?S (Group [''b'']) = 4" and sw: "size_of_axis ?S (Group [''w'']) = 10"
    and sg: "size_of_axis ?S (Group [''b'', ''w'']) = 40"
    by (simp_all add: size_of_axis_def)
  have leaves: "\<forall>l \<in> set [''b'', ''w'']. size_of_axis ?S (Group [l]) < 2 ^ 63"
    using sb sw by simp
  have whole: "size_of_axis ?S (Group [''b'', ''w'']) < 2 ^ 63" using sg by simp
  have one: "\<forall>l \<in> set [''b'', ''w'']. length l = 1" by simp
  from get_extent_group_product [OF d leaves whole] one
  have prod: "get_extent ?S [Group [''b'', ''w'']] = [prod_list (get_extent ?S (map Name [''b'', ''w'']))]"
    by blast
  have vals: "get_extent ?S [Group [''b'', ''w'']] = [40]" "get_extent ?S [Group [''b'']] = [4]"
    "get_extent ?S [Group [''w'']] = [10]" "get_extent ?S [Name ''b'', Name ''w''] = [4, 10]"
    by (simp_all add: get_extent_def size_of_axis_int64_def np_prod_int64_def)
  show ?thesis using d sb sw sg prod vals by simp
qed

section \<open>Size of transformed and broadcast spaces\<close>

lemma bind_err_simps:
  "bind_err (Inl e) f = Inl e" "bind_err (Inr x) f = f x"
  by (simp_all add: bind_err_def)

lemma bind_err_Inr_iff:
  "bind_err m f = Inr y \<longleftrightarrow> (\<exists>x. m = Inr x \<and> f x = Inr y)"
  by (cases m) (simp_all add: bind_err_def)

lemma od_set_consistent:
  "od_set (map (\<lambda>k. (k, f k)) ks) k (f k) =
     (if k \<in> set ks then map (\<lambda>k. (k, f k)) ks else map (\<lambda>k. (k, f k)) (ks @ [k]))"
  by (induction ks) auto

lemma foldl_od_set_consistent:
  "distinct ks0 \<Longrightarrow>
   \<exists>ks'. distinct ks' \<and> set ks' = set ks0 \<union> set ks \<and>
     foldl (\<lambda>d (k, v). od_set d k v) (map (\<lambda>k. (k, f k)) ks0) (map (\<lambda>k. (k, f k)) ks)
       = map (\<lambda>k. (k, f k)) ks'"
proof (induction ks arbitrary: ks0)
  case Nil
  then show ?case by auto
next
  case (Cons k ks)
  show ?case
  proof (cases "k \<in> set ks0")
    case True
    have step: "od_set (map (\<lambda>k. (k, f k)) ks0) k (f k) = map (\<lambda>k. (k, f k)) ks0"
      using True by (simp add: od_set_consistent)
    from Cons.IH [OF Cons.prems] obtain ks' where
      "distinct ks'" "set ks' = set ks0 \<union> set ks"
      "foldl (\<lambda>d (k, v). od_set d k v) (map (\<lambda>k. (k, f k)) ks0) (map (\<lambda>k. (k, f k)) ks)
         = map (\<lambda>k. (k, f k)) ks'" by blast
    then show ?thesis using True by (intro exI [of _ ks']) (auto simp: step)
  next
    case False
    have step: "od_set (map (\<lambda>k. (k, f k)) ks0) k (f k) = map (\<lambda>k. (k, f k)) (ks0 @ [k])"
      using False by (simp add: od_set_consistent)
    have d: "distinct (ks0 @ [k])" using False Cons.prems by simp
    from Cons.IH [OF d] obtain ks' where
      "distinct ks'" "set ks' = set (ks0 @ [k]) \<union> set ks"
      "foldl (\<lambda>d (k, v). od_set d k v) (map (\<lambda>k. (k, f k)) (ks0 @ [k])) (map (\<lambda>k. (k, f k)) ks)
         = map (\<lambda>k. (k, f k)) ks'" by blast
    then show ?thesis by (intro exI [of _ ks']) (auto simp: step)
  qed
qed

lemma od_of_pairs_consistent:
  "\<exists>ks'. distinct ks' \<and> set ks' = set ks \<and>
     od_of_pairs (map (\<lambda>k. (k, f k)) ks) = map (\<lambda>k. (k, f k)) ks'"
  using foldl_od_set_consistent [of "[]" ks f] by (simp add: od_of_pairs_def)

lemma prod_od_of_pairs:
  "prod_list (map snd (od_of_pairs (map (\<lambda>k. (k, f k)) ks))) = prod f (set ks)"
proof -
  obtain ks' where ks': "distinct ks'" "set ks' = set ks"
    "od_of_pairs (map (\<lambda>k. (k, f k)) ks) = map (\<lambda>k. (k, f k)) ks'"
    using od_of_pairs_consistent by blast
  have "prod_list (map snd (map (\<lambda>k. (k, f k)) ks')) = prod_list (map f ks')"
    by (simp add: comp_def)
  also have "\<dots> = prod f (set ks')" using ks'(1) by (simp add: prod.distinct_set_conv_list)
  finally show ?thesis using ks' by simp
qed

lemma od_get_distinct:
  "distinct (map fst d) \<Longrightarrow> map (\<lambda>k. od_get d k dflt) (map fst d) = map snd d"
  by (induction d) (auto simp: od_get_def rev_image_eqI)

lemma size_sp_as_prod:
  assumes "distinct (map fst (extent S))"
  shows "size_sp S = prod (\<lambda>k. od_get (extent S) k 1) (set (map fst (extent S)))"
proof -
  have "prod (\<lambda>k. od_get (extent S) k 1) (set (map fst (extent S)))
        = prod_list (map (\<lambda>k. od_get (extent S) k 1) (map fst (extent S)))"
    using assms by (simp only: prod.distinct_set_conv_list)
  also have "\<dots> = prod_list (map snd (extent S))"
    by (simp only: od_get_distinct [OF assms])
  finally show ?thesis by (simp add: size_sp_def)
qed

lemma od_get_absent: "k \<notin> set (map fst d) \<Longrightarrow> od_get d k dflt = dflt"
  by (simp add: od_get_def map_of_eq_None_iff [THEN iffD2])

lemma size_new_space_of:
  assumes "distinct (map fst (extent S))"
    and "set (map fst (extent S)) \<subseteq> set (fold_axes new_axes)"
  shows "size_sp (new_space_of S new_axes) = size_sp S"
proof -
  have "size_sp (new_space_of S new_axes)
        = prod (\<lambda>k. od_get (extent S) k 1) (set (fold_axes new_axes))"
    by (simp add: size_sp_def new_space_of_def prod_od_of_pairs)
  also have "\<dots> = prod (\<lambda>k. od_get (extent S) k 1) (set (map fst (extent S)))"
    using assms(2) by (intro prod.mono_neutral_right) (auto simp: od_get_absent)
  finally show ?thesis using size_sp_as_prod [OF assms(1)] by simp
qed

lemma folded_axes_new_space_of [simp]:
  "folded_axes (new_space_of S new_axes) = fold_axes new_axes"
  by (simp add: folded_axes_def new_space_of_def)

lemma transform_Inr_subset:
  assumes "transform set_order S X new_axes = Inr (Y, S')"
  shows "S' = new_space_of S new_axes \<and> set (folded_axes S) \<subseteq> set (fold_axes new_axes)"
proof -
  have pass: "set (folded_axes (expanded_space_of set_order S new_axes)) = set (fold_axes new_axes)"
    using assms by (auto simp: transform_def Let_def split: if_splits)
  have sub: "set (folded_axes S) \<subseteq> set (fold_axes new_axes)"
    using pass by (auto simp: expanded_space_of_def split: if_splits)
  have "S' = new_space_of S new_axes"
    using assms pass by (auto simp: transform_def Let_def bind_err_Inr_iff)
  then show ?thesis using sub by simp
qed


lemma map_err_total:
  "(\<forall>x \<in> set xs. f x = Inr (g x)) \<Longrightarrow> map_err f xs = Inr (map g xs)"
  by (induction xs) (simp_all add: bind_err_simps)

lemma fold_err_Inr_all:
  "fold_err f xs s = Inr s' \<Longrightarrow> (\<And>s x s'. f s x = Inr s' \<Longrightarrow> P x) \<Longrightarrow> \<forall>x \<in> set xs. P x"
proof (induction xs arbitrary: s)
  case Nil
  then show ?case by simp
next
  case (Cons x xs)
  from Cons.prems(1) obtain s1 where s1: "f s x = Inr s1" "fold_err f xs s1 = Inr s'"
    by (auto simp: bind_err_Inr_iff)
  have "P x" using s1(1) by (rule Cons.prems(2))
  moreover have "\<forall>x \<in> set xs. P x" using s1(2) Cons.prems(2) by (rule Cons.IH)
  ultimately show ?case by simp
qed

lemma od_item_distinct:
  "distinct (map fst d) \<Longrightarrow> (k, v) \<in> set d \<Longrightarrow> od_item d k = Inr v"
  by (simp add: od_item_def)

lemma od_item_get:
  "k \<in> set (map fst d) \<Longrightarrow> od_item d k = Inr (od_get d k dflt)"
  by (auto simp: od_item_def od_get_def split: option.splits simp: map_of_eq_None_iff)

lemma broadcast_extent_wf:
  assumes "wf_space S"
  shows "broadcast_extent S replicas =
           Inr (map (\<lambda>(k, v). (k, v * od_get replicas k 1)) (extent S))"
proof -
  let ?E = "extent S"
  let ?g = "\<lambda>k. (k, od_get ?E k 1 * od_get replicas k 1)"
  have keys: "map fst ?E = fold_axes (axes S)" and dist: "distinct (map fst ?E)"
    using assms by (simp_all add: wf_space_def folded_axes_def)
  have "map_err (\<lambda>ax. bind_err (od_item ?E ax) (\<lambda>v. Inr (ax, v * od_get replicas ax 1)))
          (fold_axes (axes S)) = Inr (map ?g (fold_axes (axes S)))"
  proof (rule map_err_total, intro ballI)
    fix x assume "x \<in> set (fold_axes (axes S))"
    then have "x \<in> set (map fst ?E)" using keys by simp
    then have "od_item ?E x = Inr (od_get ?E x 1)" by (rule od_item_get)
    then show "bind_err (od_item ?E x) (\<lambda>v. Inr (x, v * od_get replicas x 1)) = Inr (?g x)"
      by (simp add: bind_err_simps)
  qed
  moreover have "od_of_pairs (map ?g (fold_axes (axes S))) = map ?g (fold_axes (axes S))"
    using dist keys by (intro od_of_pairs_distinct) (simp add: comp_def)
  moreover have "map ?g (map fst ?E) = map (\<lambda>(k, v). (k, v * od_get replicas k 1)) ?E"
    using dist by (induction "extent S") (auto simp: od_get_def rev_image_eqI)
  ultimately show ?thesis by (simp add: broadcast_extent_def bind_err_simps keys [symmetric])
qed

lemma prod_list_scaled:
  "prod_list (map snd (map (\<lambda>(k, v). (k, v * h k)) d))
     = prod_list (map snd d) * prod_list (map h (map fst d))" for h :: "label \<Rightarrow> nat"
  by (induction d) auto

lemma prod_replicas:
  assumes "distinct ks" and "distinct (map fst r)" and "set (map fst r) \<subseteq> set ks"
  shows "prod_list (map (\<lambda>k. od_get r k 1) ks) = prod_list (map snd r)"
proof -
  have "prod_list (map (\<lambda>k. od_get r k 1) ks) = prod (\<lambda>k. od_get r k 1) (set ks)"
    using assms(1) by (simp only: prod.distinct_set_conv_list)
  also have "\<dots> = prod (\<lambda>k. od_get r k 1) (set (map fst r))"
    using assms(3) by (intro prod.mono_neutral_right) (auto simp: od_get_absent)
  also have "\<dots> = prod_list (map (\<lambda>k. od_get r k 1) (map fst r))"
    using assms(2) by (simp only: prod.distinct_set_conv_list)
  also have "\<dots> = prod_list (map snd r)"
    by (simp only: od_get_distinct [OF assms(2)])
  finally show ?thesis .
qed

lemma broadcast_Inr:
  assumes "wf_space S" and "broadcast S X replicas = Inr (Y, S')"
  shows "S' = \<lparr>axes = axes S, extent = map (\<lambda>(k, v). (k, v * od_get replicas k 1)) (extent S)\<rparr>
         \<and> set (map fst replicas) \<subseteq> set (folded_axes S)"
proof -
  let ?E' = "map (\<lambda>(k, v). (k, v * od_get replicas k 1)) (extent S)"
  let ?f = "\<lambda>Xc (ax, times). bind_err (index_of (folded_axes S) ax)
              (\<lambda>k. np_concatenate (replicate times Xc) k)"
  from assms(2) obtain X1 X2 where
    X1: "fold_X S X = Inr X1" and X2: "fold_err ?f replicas X1 = Inr X2"
    and S': "S' = \<lparr>axes = axes S, extent = ?E'\<rparr>"
    by (auto simp: broadcast_def broadcast_extent_wf [OF assms(1)] bind_err_simps Let_def
          bind_err_Inr_iff split: if_splits)
  have "\<forall>x \<in> set replicas. fst x \<in> set (folded_axes S)"
    using X2
  proof (rule fold_err_Inr_all)
    fix s :: "'a ndarray" and x :: "label \<times> nat" and s'
    assume "?f s x = Inr s'"
    then show "fst x \<in> set (folded_axes S)"
      by (cases x) (auto simp: bind_err_Inr_iff index_of_def split: if_splits)
  qed
  then show ?thesis using S' by auto
qed

text \<open>
  C4. For a well-formed space, the space returned by \<^verbatim>\<open>transform\<close> has the size of the
  original, and the space returned by \<^verbatim>\<open>broadcast\<close> has the size of the original times
  the product of the replica counts (the keyword arguments are a dictionary: no label
  occurs twice).
\<close>

theorem size_conserved:
  assumes "wf_space S"
  shows "(transform set_order S X new_axes = Inr (Y, S') \<longrightarrow> size_sp S' = size_sp S) \<and>
         (distinct (map fst replicas) \<longrightarrow> broadcast S X replicas = Inr (Y, S') \<longrightarrow>
            size_sp S' = size_sp S * prod_list (map snd replicas))"
proof (intro conjI impI)
  have keys: "map fst (extent S) = folded_axes S" and dist: "distinct (map fst (extent S))"
    using assms by (simp_all add: wf_space_def)
  {
    assume t: "transform set_order S X new_axes = Inr (Y, S')"
    from transform_Inr_subset [OF t]
    have "S' = new_space_of S new_axes" "set (map fst (extent S)) \<subseteq> set (fold_axes new_axes)"
      using keys by simp_all
    then show "size_sp S' = size_sp S" using size_new_space_of [OF dist] by simp
  }
  {
    assume r: "distinct (map fst replicas)" and b: "broadcast S X replicas = Inr (Y, S')"
    from broadcast_Inr [OF assms b]
    have S': "S' = \<lparr>axes = axes S, extent = map (\<lambda>(k, v). (k, v * od_get replicas k 1)) (extent S)\<rparr>"
      and sub: "set (map fst replicas) \<subseteq> set (map fst (extent S))" using keys by simp_all
    have "size_sp S' = prod_list (map snd (extent S)) *
            prod_list (map (\<lambda>k. od_get replicas k 1) (map fst (extent S)))"
      unfolding S' size_sp_def by (simp only: space.simps prod_list_scaled)
    also have "prod_list (map (\<lambda>k. od_get replicas k 1) (map fst (extent S))) = prod_list (map snd replicas)"
      using dist r sub by (rule prod_replicas)
    finally show "size_sp S' = size_sp S * prod_list (map snd replicas)"
      by (simp add: size_sp_def)
  }
qed

theorem size_conserved_witness:
  "wf_space \<lparr>axes = [Name ''b'', Name ''w''], extent = [(''b'', 2), (''w'', 3)]\<rparr> \<and>
   transform (\<lambda>xs. xs) \<lparr>axes = [Name ''b'', Name ''w''], extent = [(''b'', 2), (''w'', 3)]\<rparr>
      \<lparr>shape = [2, 3], data = [1, 2, 3, 4, 5, 6 :: int]\<rparr> [Group [''w'', ''b'']]
    = Inr (\<lparr>shape = [6], data = [1, 4, 2, 5, 3, 6]\<rparr>,
        \<lparr>axes = [Group [''w'', ''b'']], extent = [(''w'', 3), (''b'', 2)]\<rparr>) \<and>
   size_sp \<lparr>axes = [Group [''w'', ''b'']], extent = [(''w'', 3), (''b'', 2)]\<rparr>
    = size_sp \<lparr>axes = [Name ''b'', Name ''w''], extent = [(''b'', 2), (''w'', 3)]\<rparr> \<and>
   broadcast \<lparr>axes = [Name ''b'', Name ''w''], extent = [(''b'', 2), (''w'', 3)]\<rparr>
      \<lparr>shape = [2, 3], data = [1, 2, 3, 4, 5, 6 :: int]\<rparr> [(''w'', 2), (''b'', 3)]
    = Inr (\<lparr>shape = [6, 6], data = concat (replicate 3 [1, 2, 3, 1, 2, 3, 4, 5, 6, 4, 5, 6])\<rparr>,
      \<lparr>axes = [Name ''b'', Name ''w''], extent = [(''b'', 6), (''w'', 6)]\<rparr>) \<and>
   size_sp \<lparr>axes = [Name ''b'', Name ''w''], extent = [(''b'', 6), (''w'', 6)]\<rparr>
    = size_sp \<lparr>axes = [Name ''b'', Name ''w''], extent = [(''b'', 2), (''w'', 3)]\<rparr> * (2 * 3)"
proof -
  let ?S = "\<lparr>axes = [Name ''b'', Name ''w''], extent = [(''b'', 2), (''w'', 3)]\<rparr>"
  let ?X = "\<lparr>shape = [2, 3], data = [1, 2, 3, 4, 5, 6 :: int]\<rparr>"
  have wf: "wf_space ?S" by code_simp
  have t: "transform (\<lambda>xs. xs) ?S ?X [Group [''w'', ''b'']]
    = Inr (\<lparr>shape = [6], data = [1, 4, 2, 5, 3, 6]\<rparr>,
        \<lparr>axes = [Group [''w'', ''b'']], extent = [(''w'', 3), (''b'', 2)]\<rparr>)" by code_simp
  have b: "broadcast ?S ?X [(''w'', 2), (''b'', 3)]
    = Inr (\<lparr>shape = [6, 6], data = concat (replicate 3 [1, 2, 3, 1, 2, 3, 4, 5, 6, 4, 5, 6])\<rparr>,
      \<lparr>axes = [Name ''b'', Name ''w''], extent = [(''b'', 6), (''w'', 6)]\<rparr>)" by code_simp
  have d: "distinct (map fst [(''w'', 2::nat), (''b'', 3)])" by simp
  from size_conserved [OF wf, of "\<lambda>xs. xs" ?X "[Group [''w'', ''b'']]" _ _ "[(''w'', 2), (''b'', 3)]"] t
  have one: "size_sp \<lparr>axes = [Group [''w'', ''b'']], extent = [(''w'', 3), (''b'', 2)]\<rparr> = size_sp ?S"
    by blast
  from size_conserved [OF wf, of "\<lambda>xs. xs" ?X "[Group [''w'', ''b'']]" _ _ "[(''w'', 2), (''b'', 3)]"] b d
  have two: "size_sp \<lparr>axes = [Name ''b'', Name ''w''], extent = [(''b'', 6), (''w'', 6)]\<rparr>
      = size_sp ?S * prod_list (map snd [(''w'', 2::nat), (''b'', 3)])"
    by blast
  show ?thesis using wf t b one two by simp
qed

section \<open>Construction of providers\<close>

text \<open>
  C8, as stated, fails: the constructors accept a batch size larger than the dataset
  and a negative one. They return a provider; nothing is raised.
\<close>

theorem construction_accepts_bad_batch_size:
  "MinibatchDataProvider_init \<lparr>shape = [3, 1], data = [10, 20, 30 :: int]\<rparr>
      \<lparr>shape = [3], data = [0, 1, 0 :: int]\<rparr> \<lparr>shape = [3], data = [1, 1, 1 :: nat]\<rparr> 5
    = Inr \<lparr>mb_X = \<lparr>shape = [3, 1], data = [10, 20, 30]\<rparr>, mb_Y = \<lparr>shape = [3], data = [0, 1, 0]\<rparr>,
           mb_lengths = \<lparr>shape = [3], data = [1, 1, 1]\<rparr>, mb_batch_size = 5,
           mb_batch_index = - 1, mb_batches_per_epoch = 0\<rparr> \<and>
   MinibatchDataProvider_init \<lparr>shape = [3, 1], data = [10, 20, 30 :: int]\<rparr>
      \<lparr>shape = [3], data = [0, 1, 0 :: int]\<rparr> \<lparr>shape = [3], data = [1, 1, 1 :: nat]\<rparr> (- 2)
    = Inr \<lparr>mb_X = \<lparr>shape = [3, 1], data = [10, 20, 30]\<rparr>, mb_Y = \<lparr>shape = [3], data = [0, 1, 0]\<rparr>,
           mb_lengths = \<lparr>shape = [3], data = [1, 1, 1]\<rparr>, mb_batch_size = - 2,
           mb_batch_index = - 1, mb_batches_per_epoch = - 2\<rparr> \<and>
   PaddedSequenceMinibatchProvider_init [[1, 2], [3 :: int]] 5 0 True
    = Inr \<lparr>ps_X = [[1, 2], [3]], ps_batch_size = 5, ps_padding = 0, ps_shuffle = True,
           ps_batch_index = - 1, ps_batches_per_epoch = 0\<rparr>"
  by (simp add: MinibatchDataProvider_init_def PaddedSequenceMinibatchProvider_init_def
        shape0_def py_div_def bind_err_def)

text \<open>
  C8, amended. The constructors do not validate the batch size. With batch size 0 they
  raise ZeroDivisionError; with any other batch size they return a provider whose
  \<^verbatim>\<open>batches_per_epoch\<close> is the floor of the dataset size divided by the batch size. When
  the batch size exceeds the dataset size this is 0, and the error (ZeroDivisionError)
  only comes with the first \<^verbatim>\<open>next_batch\<close>, from \<^verbatim>\<open>_prepare_for_next_batch\<close>.
\<close>

theorem batch_size_not_validated:
  "(shape X = D # t \<longrightarrow>
      MinibatchDataProvider_init X Y L B =
        (if B = 0 then Inl ZeroDivisionError
         else Inr \<lparr>mb_X = X, mb_Y = Y, mb_lengths = L, mb_batch_size = B,
                   mb_batch_index = - 1, mb_batches_per_epoch = int D div B\<rparr>)) \<and>
   PaddedSequenceMinibatchProvider_init Xs B pad sh =
     (if B = 0 then Inl ZeroDivisionError
      else Inr \<lparr>ps_X = Xs, ps_batch_size = B, ps_padding = pad, ps_shuffle = sh,
                ps_batch_index = - 1, ps_batches_per_epoch = int (length Xs) div B\<rparr>) \<and>
   (shape X = D # t \<longrightarrow> int D < B \<longrightarrow>
      (\<exists>p. MinibatchDataProvider_init X Y L B = Inr p \<and>
           mb_next_batch perm p = Inl ZeroDivisionError)) \<and>
   (int (length Xs) < B \<longrightarrow>
      (\<exists>p. PaddedSequenceMinibatchProvider_init Xs B pad sh = Inr p \<and>
           ps_prepare_for_next_batch perm p = Inl ZeroDivisionError))"
proof (intro conjI impI)
  show "PaddedSequenceMinibatchProvider_init Xs B pad sh =
     (if B = 0 then Inl ZeroDivisionError
      else Inr \<lparr>ps_X = Xs, ps_batch_size = B, ps_padding = pad, ps_shuffle = sh,
                ps_batch_index = - 1, ps_batches_per_epoch = int (length Xs) div B\<rparr>)"
    by (simp add: PaddedSequenceMinibatchProvider_init_def py_div_def bind_err_def)
next
  assume "shape X = D # t"
  then show "MinibatchDataProvider_init X Y L B =
        (if B = 0 then Inl ZeroDivisionError
         else Inr \<lparr>mb_X = X, mb_Y = Y, mb_lengths = L, mb_batch_size = B,
                   mb_batch_index = - 1, mb_batches_per_epoch = int D div B\<rparr>)"
    by (simp add: MinibatchDataProvider_init_def shape0_def py_div_def bind_err_def)
next
  assume s: "shape X = D # t" and big: "int D < B"
  then have q: "int D div B = 0" by simp
  have "B \<noteq> 0" using big by auto
  then have "MinibatchDataProvider_init X Y L B =
      Inr \<lparr>mb_X = X, mb_Y = Y, mb_lengths = L, mb_batch_size = B,
           mb_batch_index = - 1, mb_batches_per_epoch = 0\<rparr>"
    using s q by (simp add: MinibatchDataProvider_init_def shape0_def py_div_def bind_err_def)
  moreover have "mb_next_batch perm \<lparr>mb_X = X, mb_Y = Y, mb_lengths = L, mb_batch_size = B,
           mb_batch_index = - 1, mb_batches_per_epoch = 0\<rparr> = Inl ZeroDivisionError"
    by (simp add: mb_next_batch_def mb_prepare_for_next_batch_def py_mod_def bind_err_def)
  ultimately show "\<exists>p. MinibatchDataProvider_init X Y L B = Inr p \<and>
           mb_next_batch perm p = Inl ZeroDivisionError" by simp
next
  assume big: "int (length Xs) < B"
  then have q: "int (length Xs) div B = 0" by simp
  have "B \<noteq> 0" using big by auto
  then have "PaddedSequenceMinibatchProvider_init Xs B pad sh =
      Inr \<lparr>ps_X = Xs, ps_batch_size = B, ps_padding = pad, ps_shuffle = sh,
                ps_batch_index = - 1, ps_batches_per_epoch = 0\<rparr>"
    using q by (simp add: PaddedSequenceMinibatchProvider_init_def py_div_def bind_err_def)
  moreover have "ps_prepare_for_next_batch perm \<lparr>ps_X = Xs, ps_batch_size = B, ps_padding = pad, ps_shuffle = sh,
                ps_batch_index = - 1, ps_batches_per_epoch = 0\<rparr> = Inl ZeroDivisionError"
    by (simp add: ps_prepare_for_next_batch_def py_mod_def bind_err_def)
  ultimately show "\<exists>p. PaddedSequenceMinibatchProvider_init Xs B pad sh = Inr p \<and>
           ps_prepare_for_next_batch perm p = Inl ZeroDivisionError" by simp
qed

theorem batch_size_not_validated_witness:
  "shape \<lparr>shape = [3, 1], data = [10, 20, 30 :: int]\<rparr> = 3 # [1] \<and> int 3 < 5 \<and>
   (\<exists>p. MinibatchDataProvider_init \<lparr>shape = [3, 1], data = [10, 20, 30 :: int]\<rparr>
           \<lparr>shape = [3], data = [0, 1, 0 :: int]\<rparr> \<lparr>shape = [3], data = [1, 1, 1 :: nat]\<rparr> 5 = Inr p \<and>
        mb_next_batch [0, 1] p = Inl ZeroDivisionError) \<and>
   MinibatchDataProvider_init \<lparr>shape = [3, 1], data = [10, 20, 30 :: int]\<rparr>
           \<lparr>shape = [3], data = [0, 1, 0 :: int]\<rparr> \<lparr>shape = [3], data = [1, 1, 1 :: nat]\<rparr> 0
     = Inl ZeroDivisionError \<and>
   int (length [[1, 2], [3 :: int]]) < 5 \<and>
   (\<exists>p. PaddedSequenceMinibatchProvider_init [[1, 2], [3 :: int]] 5 0 True = Inr p \<and>
        ps_prepare_for_next_batch [0, 1] p = Inl ZeroDivisionError)"
  using batch_size_not_validated [of "\<lparr>shape = [3, 1], data = [10, 20, 30 :: int]\<rparr>" 3 "[1]"
      "\<lparr>shape = [3], data = [0, 1, 0 :: int]\<rparr>" "\<lparr>shape = [3], data = [1, 1, 1 :: nat]\<rparr>" 5
      "[[1, 2], [3 :: int]]" 0 True "[0, 1]"]
    batch_size_not_validated [of "\<lparr>shape = [3, 1], data = [10, 20, 30 :: int]\<rparr>" 3 "[1]"
      "\<lparr>shape = [3], data = [0, 1, 0 :: int]\<rparr>" "\<lparr>shape = [3], data = [1, 1, 1 :: nat]\<rparr>" 0
      "[[1, 2], [3 :: int]]" 0 True "[0, 1]"]
  by auto

section \<open>One-hot labels of the labelled sequence provider\<close>

lemma nth_concat_uniform:
  "(\<forall>x \<in> set xss. length x = w) \<Longrightarrow> i < length xss \<Longrightarrow> j < w \<Longrightarrow>
   concat xss ! (i * w + j) = xss ! i ! j"
proof (induction xss arbitrary: i)
  case Nil
  then show ?case by simp
next
  case (Cons xs xss)
  show ?case
  proof (cases i)
    case 0
    then show ?thesis using Cons.prems by (simp add: nth_append)
  next
    case (Suc i')
    have "concat xss ! (i' * w + j) = xss ! i' ! j"
      using Cons.prems Suc by (intro Cons.IH) auto
    moreover have "length xs = w" using Cons.prems by simp
    ultimately show ?thesis using Suc by (simp add: nth_append)
  qed
qed

lemma np_max_Inr: "np_max ys = Inr m \<Longrightarrow> ys \<noteq> [] \<and> m = Max (set ys)"
proof (cases ys)
  case Nil
  assume "np_max ys = Inr m"
  then show ?thesis using Nil by (simp add: np_max_def)
next
  case (Cons y ys')
  assume "np_max ys = Inr m"
  then have "m = fold max ys' y" using Cons by (simp add: np_max_def)
  also have "\<dots> = Max (set (y # ys'))" by (simp only: Max.set_eq_fold)
  finally show ?thesis using Cons by simp
qed

lemma length_np_arange: "length (np_arange n) = nat n"
  by (simp add: np_arange_def)

lemma nth_np_arange: "j < nat n \<Longrightarrow> np_arange n ! j = int j"
  by (simp add: np_arange_def)

lemma equal_outer_nth:
  assumes "i < length ys" and "j < length r"
  shows "data (equal_outer ys r) ! (i * length r + j) = (if ys ! i = r ! j then 1 else 0)"
proof -
  let ?rows = "map (\<lambda>y. map (\<lambda>c. if y = c then 1 else 0 :: real) r) ys"
  have "concat ?rows ! (i * length r + j) = ?rows ! i ! j"
    using assms by (intro nth_concat_uniform) auto
  then show ?thesis using assms by (simp add: equal_outer_def)
qed

text \<open>
  C10. In every batch the labelled sequence provider returns, the labels of the batch (the
  slice of \<open>Y\<close> the call has taken) are encoded as a matrix with one row per label and
  as many columns as the largest label of this batch plus one; the entry in row \<open>i\<close> and
  column \<open>j\<close> is 1 when label \<open>i\<close> is \<open>j\<close> and 0 otherwise, and a label that is not
  negative has its column.
\<close>

theorem one_hot_batch_local:
  assumes "ls_next_batch perm p = Inr ((X_batch, Y_batch, m), p')"
  defines "labels \<equiv> py_slice (ls_Y p') (ls_batch_index p' * ls_batch_size p')
                      (ls_batch_index p' * ls_batch_size p' + ls_batch_size p')"
  defines "width \<equiv> nat (Max (set labels) + 1)"
  shows "labels \<noteq> [] \<and> shape Y_batch = [length labels, width] \<and>
         (\<forall>i < length labels. \<forall>j < width.
            data Y_batch ! ravel (shape Y_batch) [i, j] = (if labels ! i = int j then 1 else 0)) \<and>
         (\<forall>i < length labels. 0 \<le> labels ! i \<longrightarrow> nat (labels ! i) < width)"
proof -
  from assms(1) obtain p1 mx ml where
    p1: "ls_prepare_for_next_batch perm p = Inr p1"
    and mx: "np_max (py_slice (ls_Y p1) (ls_batch_index p1 * ls_batch_size p1)
                      (ls_batch_index p1 * ls_batch_size p1 + ls_batch_size p1)) = Inr mx"
    and Y: "Y_batch = equal_outer (py_slice (ls_Y p1) (ls_batch_index p1 * ls_batch_size p1)
                      (ls_batch_index p1 * ls_batch_size p1 + ls_batch_size p1)) (np_arange (mx + 1))"
    and p': "p' = p1"
    by (auto simp: ls_next_batch_def Let_def bind_err_Inr_iff)
  have lab: "labels \<noteq> []" and m: "mx = Max (set labels)"
    using np_max_Inr [OF mx] by (simp_all add: labels_def p')
  have Yb: "Y_batch = equal_outer labels (np_arange (mx + 1))"
    using Y by (simp add: labels_def p')
  have w: "length (np_arange (mx + 1)) = width"
    by (simp add: length_np_arange width_def m)
  have sh: "shape Y_batch = [length labels, width]"
    using w by (simp add: Yb equal_outer_def)
  have el: "\<forall>i < length labels. \<forall>j < width.
            data Y_batch ! ravel (shape Y_batch) [i, j] = (if labels ! i = int j then 1 else 0)"
  proof (intro allI impI)
    fix i j assume i: "i < length labels" and j: "j < width"
    have "data Y_batch ! (i * length (np_arange (mx + 1)) + j)
          = (if labels ! i = np_arange (mx + 1) ! j then 1 else 0)"
      unfolding Yb using i j w by (intro equal_outer_nth) simp_all
    moreover have "np_arange (mx + 1) ! j = int j"
      using j by (intro nth_np_arange) (simp add: width_def m)
    ultimately show "data Y_batch ! ravel (shape Y_batch) [i, j] = (if labels ! i = int j then 1 else 0)"
      using w by (simp add: sh)
  qed
  have pos: "\<forall>i < length labels. 0 \<le> labels ! i \<longrightarrow> nat (labels ! i) < width"
  proof (intro allI impI)
    fix i assume i: "i < length labels" and nn: "0 \<le> labels ! i"
    have "labels ! i \<le> Max (set labels)" using i by (intro Max_ge) auto
    then show "nat (labels ! i) < width" using nn by (simp add: width_def)
  qed
  show ?thesis using lab sh el pos by blast
qed

theorem one_hot_batch_local_witness:
  "ls_next_batch [] \<lparr>ls_X = [[1, 2], [3], [4, 5, 6 :: int]], ls_Y = [0, 2, 1], ls_batch_size = 3,
       ls_padding = 0, ls_shuffle = False, ls_batch_index = - 1, ls_batches_per_epoch = 1\<rparr>
     = Inr (([[1, 2, 0], [3, 0, 0], [4, 5, 6]],
             \<lparr>shape = [3, 3], data = [1, 0, 0, 0, 0, 1, 0, 1, 0]\<rparr>,
             \<lparr>meta_lengths = [2, 1, 3],
              space_below = \<lparr>axes = [Name ''b'', Name ''w''], extent = [(''b'', 3), (''w'', 3)]\<rparr>\<rparr>),
            \<lparr>ls_X = [[1, 2], [3], [4, 5, 6]], ls_Y = [0, 2, 1], ls_batch_size = 3,
             ls_padding = 0, ls_shuffle = False, ls_batch_index = 0, ls_batches_per_epoch = 1\<rparr>) \<and>
   py_slice [0, 2, 1 :: int] (0 * 3) (0 * 3 + 3) = [0, 2, 1] \<and>
   shape \<lparr>shape = [3, 3], data = [1, 0, 0, 0, 0, 1, 0, 1, 0 :: real]\<rparr>
     = [length [0, 2, 1 :: int], nat (Max (set [0, 2, 1 :: int]) + 1)]"
proof -
  let ?p = "\<lparr>ls_X = [[1, 2], [3], [4, 5, 6 :: int]], ls_Y = [0, 2, 1], ls_batch_size = 3,
       ls_padding = 0, ls_shuffle = False, ls_batch_index = - 1, ls_batches_per_epoch = 1\<rparr>"
  have sl: "py_slice [0, 2, 1 :: int] (0 * 3) (0 * 3 + 3) = [0, 2, 1]"
    by (simp add: py_slice_def)
  have ev: "ls_next_batch [] ?p
     = Inr (([[1, 2, 0], [3, 0, 0], [4, 5, 6]],
             \<lparr>shape = [3, 3], data = [1, 0, 0, 0, 0, 1, 0, 1, 0]\<rparr>,
             \<lparr>meta_lengths = [2, 1, 3],
              space_below = \<lparr>axes = [Name ''b'', Name ''w''], extent = [(''b'', 3), (''w'', 3)]\<rparr>\<rparr>),
            \<lparr>ls_X = [[1, 2], [3], [4, 5, 6]], ls_Y = [0, 2, 1], ls_batch_size = 3,
             ls_padding = 0, ls_shuffle = False, ls_batch_index = 0, ls_batches_per_epoch = 1\<rparr>)"
    by (simp add: ls_next_batch_def ls_prepare_for_next_batch_def py_mod_def bind_err_def
          py_slice_def np_max_def np_arange_def equal_outer_def add_padding_def od_of_pairs_def
          Let_def upt_rec numeral_2_eq_2)
  from one_hot_batch_local [OF ev]
  have "shape \<lparr>shape = [3, 3], data = [1, 0, 0, 0, 0, 1, 0, 1, 0 :: real]\<rparr>
     = [length [0, 2, 1 :: int], nat (Max (set [0, 2, 1 :: int]) + 1)]"
    using sl by simp
  then show ?thesis using ev sl by simp
qed

section \<open>\<^verbatim>\<open>set_extent\<close> writes to the dictionary of its source\<close>

lemma set_extent_shares_dictionary:
  "obj_extent (snd (set_extent h self extents)) = obj_extent self"
  by (simp add: set_extent_def clone_def Let_def)

text \<open>
  C2. \<^verbatim>\<open>set_extent\<close> returns a space whose named extents are overwritten, but the source
  is not left untouched: the clone holds the very dictionary of the source, so after
  \<^verbatim>\<open>S.set_extent(b=8)\<close> on a space with extents \<open>b: 4, w: 10\<close> the source itself has
  \<open>b: 8\<close>.
\<close>

theorem set_extent_mutates_source:
  "extent_in [0 \<mapsto> [(''b'', 4), (''w'', 10)]] \<lparr>obj_axes = [Name ''b'', Name ''w''], obj_extent = 0\<rparr>
     = Some [(''b'', 4), (''w'', 10)] \<and>
   extent_in
     (fst (set_extent [0 \<mapsto> [(''b'', 4), (''w'', 10)]]
            \<lparr>obj_axes = [Name ''b'', Name ''w''], obj_extent = 0\<rparr> [(''b'', 8)]))
     (snd (set_extent [0 \<mapsto> [(''b'', 4), (''w'', 10)]]
            \<lparr>obj_axes = [Name ''b'', Name ''w''], obj_extent = 0\<rparr> [(''b'', 8)]))
     = Some [(''b'', 8), (''w'', 10)] \<and>
   extent_in
     (fst (set_extent [0 \<mapsto> [(''b'', 4), (''w'', 10)]]
            \<lparr>obj_axes = [Name ''b'', Name ''w''], obj_extent = 0\<rparr> [(''b'', 8)]))
     \<lparr>obj_axes = [Name ''b'', Name ''w''], obj_extent = 0\<rparr>
     = Some [(''b'', 8), (''w'', 10)]"
  by (simp add: extent_in_def set_extent_def clone_def store_setitem_def Let_def)

section \<open>Cyclic iteration of the minibatch provider\<close>

lemma take_drop_concat_uniform:
  "(\<forall>x \<in> set xss. length x = w) \<Longrightarrow> i < length xss \<Longrightarrow>
   take w (drop (i * w) (concat xss)) = xss ! i"
proof (induction xss arbitrary: i)
  case Nil
  then show ?case by simp
next
  case (Cons xs xss)
  have len: "length xs = w" using Cons.prems by simp
  show ?case
  proof (cases i)
    case 0
    then show ?thesis using len by simp
  next
    case (Suc i')
    have "take w (drop (i' * w) (concat xss)) = xss ! i'"
      using Cons.prems Suc by (intro Cons.IH) auto
    then show ?thesis using Suc len by simp
  qed
qed

lemma length_concat_uniform:
  "(\<forall>x \<in> set xss. length x = w) \<Longrightarrow> length (concat xss) = length xss * w"
  by (induction xss) auto

lemma nd_rows_of_rows:
  assumes "\<forall>r \<in> set rows. length r = prod_list t"
  shows "nd_rows (nd_of_rows t rows) = rows"
proof (rule nth_equalityI)
  show "length (nd_rows (nd_of_rows t rows)) = length rows"
    by (simp add: nd_rows_def Let_def nd_of_rows_def)
next
  fix i assume "i < length (nd_rows (nd_of_rows t rows))"
  then have i: "i < length rows" by (simp add: nd_rows_def Let_def nd_of_rows_def)
  then show "nd_rows (nd_of_rows t rows) ! i = rows ! i"
    using take_drop_concat_uniform [OF assms i] by (simp add: nd_rows_def Let_def nd_of_rows_def)
qed

lemma wf_nd_of_rows:
  "\<forall>r \<in> set rows. length r = prod_list t \<Longrightarrow> wf_array (nd_of_rows t rows)"
  by (simp add: wf_array_def nd_of_rows_def length_concat_uniform)

lemma nd_rows_wf:
  assumes "wf_array X" and "shape X = D # t"
  shows "length (nd_rows X) = D" and "\<forall>r \<in> set (nd_rows X). length r = prod_list t"
proof -
  show "length (nd_rows X) = D" using assms(2) by (simp add: nd_rows_def Let_def)
  have len: "length (data X) = D * prod_list t" using assms by (simp add: wf_array_def)
  show "\<forall>r \<in> set (nd_rows X). length r = prod_list t"
  proof
    fix r assume "r \<in> set (nd_rows X)"
    then obtain i where i: "i < D" and r: "r = take (prod_list t) (drop (i * prod_list t) (data X))"
      using assms(2) by (auto simp: nd_rows_def Let_def)
    have "Suc i * prod_list t \<le> D * prod_list t" using i by (intro mult_le_mono1) simp
    then have "prod_list t \<le> D * prod_list t - i * prod_list t" by simp
    then show "length r = prod_list t" using r len by simp
  qed
qed

lemma is_permutation_length: "is_permutation perm D \<Longrightarrow> length perm = D"
  using distinct_card [of perm] by (simp add: is_permutation_def)

lemma nd_take_ok:
  assumes "wf_array X" and "shape X = D # t" and "is_permutation perm D"
  shows "\<exists>X'. nd_take X perm = Inr X' \<and> wf_array X' \<and> shape X' = D # t"
proof -
  let ?rows = "map (\<lambda>i. nd_rows X ! i) perm"
  have bound: "\<forall>i \<in> set perm. i < D" using assms(3) by (simp add: is_permutation_def)
  have take: "nd_take X perm = Inr (nd_of_rows t ?rows)"
    using assms(2) bound by (auto simp: nd_take_def)
  have "\<forall>r \<in> set ?rows. length r = prod_list t"
    using nd_rows_wf [OF assms(1,2)] bound by auto
  then have "wf_array (nd_of_rows t ?rows)" by (rule wf_nd_of_rows)
  moreover have "shape (nd_of_rows t ?rows) = D # t"
    using is_permutation_length [OF assms(3)] by (simp add: nd_of_rows_def)
  ultimately show ?thesis using take by simp
qed

lemma nd_take_rows:
  assumes "wf_array X" and "shape X = D # t" and "is_permutation perm D"
    and "nd_take X perm = Inr X'"
  shows "nd_rows X' = map (\<lambda>i. nd_rows X ! i) perm"
proof -
  let ?rows = "map (\<lambda>i. nd_rows X ! i) perm"
  have bound: "\<forall>i \<in> set perm. i < D" using assms(3) by (simp add: is_permutation_def)
  have take: "nd_take X perm = Inr (nd_of_rows t ?rows)"
    using assms(2) bound by (auto simp: nd_take_def)
  have "\<forall>r \<in> set ?rows. length r = prod_list t"
    using nd_rows_wf [OF assms(1,2)] bound by auto
  then have "nd_rows (nd_of_rows t ?rows) = ?rows" by (rule nd_rows_of_rows)
  then show ?thesis using take assms(4) by simp
qed

lemma py_slice_batch:
  assumes "0 \<le> i" and "0 < B" and "(i + 1) * B \<le> int (length xs)"
  shows "py_slice xs (i * B) (i * B + B) = take (nat B) (drop (nat (i * B)) xs)"
proof -
  have nn: "0 \<le> i * B" using assms(1,2) by simp
  have le: "i * B + B \<le> int (length xs)" using assms(3) by (simp add: algebra_simps)
  show ?thesis using nn le assms(2) by (simp add: py_slice_def Let_def min_def)
qed

lemma nd_slice_batch:
  assumes "wf_array X" and "shape X = D # t"
    and "0 \<le> i" and "0 < B" and "(i + 1) * B \<le> int D"
  shows "\<exists>Xb. nd_slice X (i * B) (i * B + B) = Inr Xb \<and> shape Xb = nat B # t \<and>
           nd_rows Xb = take (nat B) (drop (nat (i * B)) (nd_rows X))"
proof -
  let ?rows = "take (nat B) (drop (nat (i * B)) (nd_rows X))"
  have len: "length (nd_rows X) = D" and uni: "\<forall>r \<in> set (nd_rows X). length r = prod_list t"
    using nd_rows_wf [OF assms(1,2)] by simp_all
  have sl: "py_slice (nd_rows X) (i * B) (i * B + B) = ?rows"
    using assms(3,4,5) len by (intro py_slice_batch) simp_all
  have s: "nd_slice X (i * B) (i * B + B) = Inr (nd_of_rows t ?rows)"
    using assms(2) sl by (simp add: nd_slice_def)
  have "\<forall>r \<in> set ?rows. length r = prod_list t"
    using uni by (meson in_set_dropD in_set_takeD)
  then have rows: "nd_rows (nd_of_rows t ?rows) = ?rows" by (rule nd_rows_of_rows)
  have "nat (i * B) + nat B \<le> D" using assms(3,4,5) by (simp add: algebra_simps nat_add_distrib [symmetric] nat_le_iff)
  then have "length ?rows = nat B" using len by simp
  then have "shape (nd_of_rows t ?rows) = nat B # t" by (simp add: nd_of_rows_def)
  then show ?thesis using s rows by simp
qed

lemma infer_bw:
  "shape X = [n, w] \<Longrightarrow>
   infer X [''b'', ''w''] = Inr \<lparr>axes = [Name ''b'', Name ''w''], extent = [(''b'', n), (''w'', w)]\<rparr>"
  by (simp add: infer_def od_of_pairs_def)

lemma batch_index_bounds:
  assumes "0 < B" and "B \<le> int D" and "- 1 \<le> j"
  defines "i \<equiv> (j + 1) mod (int D div B)"
  shows "int D div B \<noteq> 0" and "0 \<le> i" and "(i + 1) * B \<le> int D"
proof -
  have "0 < int D div B" using assms(1,2) pos_imp_zdiv_pos_iff [of B "int D"] by simp
  then have q: "1 \<le> int D div B" by simp
  then show "int D div B \<noteq> 0" by simp
  show "0 \<le> i" unfolding i_def using q by (intro pos_mod_sign) simp
  have "i < int D div B" unfolding i_def using q by (intro pos_mod_bound) simp
  then have "i + 1 \<le> int D div B" by simp
  then have "(i + 1) * B \<le> (int D div B) * B" using assms(1) by (intro mult_right_mono) simp_all
  also have "\<dots> \<le> int D"
    using div_mult_mod_eq [of "int D" B] pos_mod_sign [OF assms(1), of "int D"] by linarith
  finally show "(i + 1) * B \<le> int D" .
qed


lemma mb_prepare_ok:
  assumes wfX: "wf_array (mb_X q)" "shape (mb_X q) = D # tx"
    and wfY: "wf_array (mb_Y q)" "shape (mb_Y q) = D # ty"
    and wfL: "wf_array (mb_lengths q)" "shape (mb_lengths q) = D # tz"
    and B: "mb_batch_size q = B" "0 < B" "B \<le> int D"
    and bpe: "mb_batches_per_epoch q = int D div B"
    and idx: "- 1 \<le> mb_batch_index q"
    and perm: "is_permutation perm D"
  shows "\<exists>q1. mb_prepare_for_next_batch perm q = Inr q1 \<and>
           mb_batch_index q1 = (mb_batch_index q + 1) mod (int D div B) \<and>
           mb_batch_size q1 = B \<and> mb_batches_per_epoch q1 = int D div B \<and>
           (if mb_batch_index q1 = 0
            then nd_take (mb_X q) perm = Inr (mb_X q1) \<and> nd_take (mb_Y q) perm = Inr (mb_Y q1) \<and>
                 nd_take (mb_lengths q) perm = Inr (mb_lengths q1)
            else mb_X q1 = mb_X q \<and> mb_Y q1 = mb_Y q \<and> mb_lengths q1 = mb_lengths q) \<and>
           wf_array (mb_X q1) \<and> shape (mb_X q1) = D # tx \<and>
           wf_array (mb_Y q1) \<and> shape (mb_Y q1) = D # ty \<and>
           wf_array (mb_lengths q1) \<and> shape (mb_lengths q1) = D # tz"
proof -
  let ?i = "(mb_batch_index q + 1) mod (int D div B)"
  have nz: "int D div B \<noteq> 0" using batch_index_bounds(1) [OF B(2,3) idx] .
  have md: "py_mod (mb_batch_index q + 1) (mb_batches_per_epoch q) = Inr ?i"
    using nz by (simp add: py_mod_def bpe)
  show ?thesis
  proof (cases "?i = 0")
    case True
    from nd_take_ok [OF wfX perm] obtain X' where
      X': "nd_take (mb_X q) perm = Inr X'" "wf_array X'" "shape X' = D # tx" by blast
    from nd_take_ok [OF wfY perm] obtain Y' where
      Y': "nd_take (mb_Y q) perm = Inr Y'" "wf_array Y'" "shape Y' = D # ty" by blast
    from nd_take_ok [OF wfL perm] obtain L' where
      L': "nd_take (mb_lengths q) perm = Inr L'" "wf_array L'" "shape L' = D # tz" by blast
    let ?q1 = "q\<lparr>mb_batch_index := ?i, mb_X := X', mb_Y := Y', mb_lengths := L'\<rparr>"
    have "mb_prepare_for_next_batch perm q = Inr ?q1"
      using True md X'(1) Y'(1) L'(1)
      by (simp add: mb_prepare_for_next_batch_def mb_shuffle_data_def bind_err_def Let_def)
    then show ?thesis using True X' Y' L' B(1) bpe by simp
  next
    case False
    let ?q1 = "q\<lparr>mb_batch_index := ?i\<rparr>"
    have "mb_prepare_for_next_batch perm q = Inr ?q1"
      using False md by (simp add: mb_prepare_for_next_batch_def bind_err_def Let_def)
    then show ?thesis using False wfX wfY wfL B(1) bpe by simp
  qed
qed

lemma positions_rows:
  assumes "0 \<le> i" and "0 < B" and "nat (i * B + B) \<le> length xs"
  shows "map (\<lambda>k. xs ! k) [nat (i * B) ..< nat (i * B + B)] = take (nat B) (drop (nat (i * B)) xs)"
proof -
  have nn: "0 \<le> i * B" using assms by simp
  have e: "nat (i * B + B) = nat (i * B) + nat B" using nn assms(2) by (simp add: nat_add_distrib)
  have "take (nat B) (drop (nat (i * B)) xs) = map (\<lambda>k. xs ! k) [nat (i * B) ..< nat (i * B) + nat B]"
    using assms(3) e by (intro nth_equalityI) (auto simp: nth_append)
  then show ?thesis using e by simp
qed

lemma mb_next_batch_ok:
  assumes wfX: "wf_array (mb_X q)" "shape (mb_X q) = [D, w]"
    and wfY: "wf_array (mb_Y q)" "shape (mb_Y q) = D # ty"
    and wfL: "wf_array (mb_lengths q)" "shape (mb_lengths q) = D # tz"
    and B: "mb_batch_size q = B" "0 < B" "B \<le> int D"
    and bpe: "mb_batches_per_epoch q = int D div B"
    and idx: "- 1 \<le> mb_batch_index q"
    and perm: "is_permutation perm D"
  shows "\<exists>Xb Yb Lb sp q1. mb_next_batch perm q = Inr ((Xb, Yb, \<lparr>meta_lengths = Lb, space_below = sp\<rparr>), q1) \<and>
           mb_batch_index q1 = (mb_batch_index q + 1) mod (int D div B) \<and>
           mb_batch_size q1 = B \<and> mb_batches_per_epoch q1 = int D div B \<and>
           (if mb_batch_index q1 = 0
            then nd_take (mb_X q) perm = Inr (mb_X q1) \<and> nd_take (mb_Y q) perm = Inr (mb_Y q1) \<and>
                 nd_take (mb_lengths q) perm = Inr (mb_lengths q1)
            else mb_X q1 = mb_X q \<and> mb_Y q1 = mb_Y q \<and> mb_lengths q1 = mb_lengths q) \<and>
           wf_array (mb_X q1) \<and> shape (mb_X q1) = [D, w] \<and>
           wf_array (mb_Y q1) \<and> shape (mb_Y q1) = D # ty \<and>
           wf_array (mb_lengths q1) \<and> shape (mb_lengths q1) = D # tz \<and>
           nd_rows Xb = take (nat B) (drop (nat (mb_batch_index q1 * B)) (nd_rows (mb_X q1))) \<and>
           nd_rows Yb = take (nat B) (drop (nat (mb_batch_index q1 * B)) (nd_rows (mb_Y q1))) \<and>
           nd_rows Lb = take (nat B) (drop (nat (mb_batch_index q1 * B)) (nd_rows (mb_lengths q1))) \<and>
           sp = \<lparr>axes = [Name ''b'', Name ''w''], extent = [(''b'', nat B), (''w'', w)]\<rparr>"
proof -
  from mb_prepare_ok [OF wfX wfY wfL B bpe idx perm] obtain q1 where
    prep: "mb_prepare_for_next_batch perm q = Inr q1"
    and i: "mb_batch_index q1 = (mb_batch_index q + 1) mod (int D div B)"
    and fields: "mb_batch_size q1 = B" "mb_batches_per_epoch q1 = int D div B"
    and sh: "if mb_batch_index q1 = 0
            then nd_take (mb_X q) perm = Inr (mb_X q1) \<and> nd_take (mb_Y q) perm = Inr (mb_Y q1) \<and>
                 nd_take (mb_lengths q) perm = Inr (mb_lengths q1)
            else mb_X q1 = mb_X q \<and> mb_Y q1 = mb_Y q \<and> mb_lengths q1 = mb_lengths q"
    and wfX1: "wf_array (mb_X q1)" "shape (mb_X q1) = [D, w]"
    and wfY1: "wf_array (mb_Y q1)" "shape (mb_Y q1) = D # ty"
    and wfL1: "wf_array (mb_lengths q1)" "shape (mb_lengths q1) = D # tz"
    by blast
  have i0: "0 \<le> mb_batch_index q1" and iB: "(mb_batch_index q1 + 1) * B \<le> int D"
    using batch_index_bounds(2,3) [OF B(2,3) idx] i by simp_all
  from nd_slice_batch [OF wfX1 i0 B(2) iB] obtain Xb where
    Xb: "nd_slice (mb_X q1) (mb_batch_index q1 * B) (mb_batch_index q1 * B + B) = Inr Xb"
      "shape Xb = [nat B, w]"
      "nd_rows Xb = take (nat B) (drop (nat (mb_batch_index q1 * B)) (nd_rows (mb_X q1)))" by blast
  from nd_slice_batch [OF wfY1 i0 B(2) iB] obtain Yb where
    Yb: "nd_slice (mb_Y q1) (mb_batch_index q1 * B) (mb_batch_index q1 * B + B) = Inr Yb"
      "nd_rows Yb = take (nat B) (drop (nat (mb_batch_index q1 * B)) (nd_rows (mb_Y q1)))" by blast
  from nd_slice_batch [OF wfL1 i0 B(2) iB] obtain Lb where
    Lb: "nd_slice (mb_lengths q1) (mb_batch_index q1 * B) (mb_batch_index q1 * B + B) = Inr Lb"
      "nd_rows Lb = take (nat B) (drop (nat (mb_batch_index q1 * B)) (nd_rows (mb_lengths q1)))" by blast
  let ?sp = "\<lparr>axes = [Name ''b'', Name ''w''], extent = [(''b'', nat B), (''w'', w)]\<rparr>"
  have inf: "infer Xb [''b'', ''w''] = Inr ?sp" using Xb(2) by (rule infer_bw)
  have "mb_next_batch perm q = Inr ((Xb, Yb, \<lparr>meta_lengths = Lb, space_below = ?sp\<rparr>), q1)"
    using prep Xb(1) Yb(1) Lb(1) inf fields(1)
    by (simp add: mb_next_batch_def bind_err_def Let_def)
  then show ?thesis
    using i fields sh wfX1 wfY1 wfL1 Xb(3) Yb(2) Lb(2) by blast
qed


lemma mb_after_invariant:
  assumes wfX: "wf_array X" "shape X = [D, w]"
    and wfY: "wf_array Y" "shape Y = D # ty"
    and wfL: "wf_array L" "shape L = D # tz"
    and B: "0 < B" "B \<le> int D"
    and perms: "\<forall>k. is_permutation (perms k) D"
  defines "p0 \<equiv> \<lparr>mb_X = X, mb_Y = Y, mb_lengths = L, mb_batch_size = B,
                    mb_batch_index = - 1, mb_batches_per_epoch = int D div B\<rparr>"
  shows "\<exists>q. mb_after perms n p0 = Inr q \<and>
           wf_array (mb_X q) \<and> shape (mb_X q) = [D, w] \<and>
           wf_array (mb_Y q) \<and> shape (mb_Y q) = D # ty \<and>
           wf_array (mb_lengths q) \<and> shape (mb_lengths q) = D # tz \<and>
           mb_batch_size q = B \<and> mb_batches_per_epoch q = int D div B \<and>
           - 1 \<le> mb_batch_index q \<and>
           (mb_batch_index q + 1) mod (int D div B) = int n mod (int D div B)"
proof (induction n)
  case 0
  show ?case using wfX wfY wfL by (simp add: p0_def)
next
  case (Suc n)
  then obtain q where q: "mb_after perms n p0 = Inr q"
    and qX: "wf_array (mb_X q)" "shape (mb_X q) = [D, w]"
    and qY: "wf_array (mb_Y q)" "shape (mb_Y q) = D # ty"
    and qL: "wf_array (mb_lengths q)" "shape (mb_lengths q) = D # tz"
    and qB: "mb_batch_size q = B" and qE: "mb_batches_per_epoch q = int D div B"
    and qi: "- 1 \<le> mb_batch_index q"
    and qm: "(mb_batch_index q + 1) mod (int D div B) = int n mod (int D div B)"
    by blast
  have pk: "is_permutation (perms n) D" using perms by simp
  from mb_next_batch_ok [OF qX qY qL qB B qE qi pk] obtain Xb Yb Lb sp q1 where
    nb: "mb_next_batch (perms n) q = Inr ((Xb, Yb, \<lparr>meta_lengths = Lb, space_below = sp\<rparr>), q1)"
    and i1: "mb_batch_index q1 = (mb_batch_index q + 1) mod (int D div B)"
    and rest: "mb_batch_size q1 = B" "mb_batches_per_epoch q1 = int D div B"
      "wf_array (mb_X q1)" "shape (mb_X q1) = [D, w]"
      "wf_array (mb_Y q1)" "shape (mb_Y q1) = D # ty"
      "wf_array (mb_lengths q1)" "shape (mb_lengths q1) = D # tz"
    by blast
  have aft: "mb_after perms (Suc n) p0 = Inr q1" using q nb by (simp add: bind_err_def)
  have i0: "0 \<le> mb_batch_index q1"
    using batch_index_bounds(2) [OF B qi] i1 by simp
  have "(mb_batch_index q1 + 1) mod (int D div B) = (int n mod (int D div B) + 1) mod (int D div B)"
    using i1 qm by simp
  also have "\<dots> = (int n + 1) mod (int D div B)" by (rule mod_add_left_eq)
  also have "\<dots> = int (Suc n) mod (int D div B)" by (simp add: add.commute)
  finally have m1: "(mb_batch_index q1 + 1) mod (int D div B) = int (Suc n) mod (int D div B)" .
  show ?case using aft rest i0 m1 by simp
qed

lemma concat_batch_ranges:
  "concat (map (\<lambda>i. [i * b ..< i * b + b]) [0..<m]) = [0 ..< m * b]" for b :: nat
proof (induction m)
  case 0
  then show ?case by simp
next
  case (Suc m)
  have split: "[0 ..< m * b + b] = [0 ..< m * b] @ [m * b ..< m * b + b]"
    by (rule upt_add_eq_append) simp
  have e: "Suc m * b = m * b + b" by simp
  have "concat (map (\<lambda>i. [i * b ..< i * b + b]) [0..<Suc m])
        = concat (map (\<lambda>i. [i * b ..< i * b + b]) [0..<m]) @ [m * b ..< m * b + b]" by simp
  also have "\<dots> = [0 ..< m * b] @ [m * b ..< m * b + b]" by (simp only: Suc)
  also have "\<dots> = [0 ..< Suc m * b]" by (simp only: split e)
  finally show ?case .
qed

lemma mb_positions_eq:
  assumes "mb_batch_size q = B" and "0 < B" and "0 \<le> mb_batch_index q"
  shows "mb_batch_positions q =
           [nat (mb_batch_index q) * nat B ..< nat (mb_batch_index q) * nat B + nat B]"
proof -
  have "nat (mb_batch_index q * B) = nat (mb_batch_index q) * nat B"
    using assms(2,3) by (simp add: nat_mult_distrib)
  moreover have "nat (mb_batch_index q * B + B) = nat (mb_batch_index q) * nat B + nat B"
    using assms(2,3) by (simp add: nat_add_distrib nat_mult_distrib)
  ultimately show ?thesis using assms(1) by (simp add: mb_batch_positions_def)
qed

lemma mb_call:
  assumes wfX: "wf_array X" "shape X = [D, w]"
    and wfY: "wf_array Y" "shape Y = D # ty"
    and wfL: "wf_array L" "shape L = D # tz"
    and B: "0 < B" "B \<le> int D"
    and perms: "\<forall>k. is_permutation (perms k) D"
  defines "p0 \<equiv> \<lparr>mb_X = X, mb_Y = Y, mb_lengths = L, mb_batch_size = B,
                    mb_batch_index = - 1, mb_batches_per_epoch = int D div B\<rparr>"
  shows "\<exists>q Xb Yb m q'.
           mb_after perms n p0 = Inr q \<and>
           mb_next_batch (perms n) q = Inr ((Xb, Yb, m), q') \<and>
           mb_after perms (Suc n) p0 = Inr q' \<and>
           mb_batch_index q' = int n mod (int D div B) \<and>
           (if mb_batch_index q' = 0
            then nd_take (mb_X q) (perms n) = Inr (mb_X q') \<and>
                 nd_take (mb_Y q) (perms n) = Inr (mb_Y q') \<and>
                 nd_take (mb_lengths q) (perms n) = Inr (mb_lengths q') \<and>
                 nd_rows (mb_X q') = map (\<lambda>i. nd_rows (mb_X q) ! i) (perms n) \<and>
                 nd_rows (mb_Y q') = map (\<lambda>i. nd_rows (mb_Y q) ! i) (perms n) \<and>
                 nd_rows (mb_lengths q') = map (\<lambda>i. nd_rows (mb_lengths q) ! i) (perms n)
            else mb_X q' = mb_X q \<and> mb_Y q' = mb_Y q \<and> mb_lengths q' = mb_lengths q) \<and>
           mb_batch_positions q' =
             [nat (mb_batch_index q') * nat B ..< nat (mb_batch_index q') * nat B + nat B] \<and>
           nd_rows Xb = map (\<lambda>k. nd_rows (mb_X q') ! k) (mb_batch_positions q') \<and>
           nd_rows Yb = map (\<lambda>k. nd_rows (mb_Y q') ! k) (mb_batch_positions q') \<and>
           nd_rows (meta_lengths m) = map (\<lambda>k. nd_rows (mb_lengths q') ! k) (mb_batch_positions q')"
proof -
  from mb_after_invariant [OF wfX wfY wfL B perms, of n] obtain q where
    q: "mb_after perms n p0 = Inr q"
    and qX: "wf_array (mb_X q)" "shape (mb_X q) = [D, w]"
    and qY: "wf_array (mb_Y q)" "shape (mb_Y q) = D # ty"
    and qL: "wf_array (mb_lengths q)" "shape (mb_lengths q) = D # tz"
    and qB: "mb_batch_size q = B" and qE: "mb_batches_per_epoch q = int D div B"
    and qi: "- 1 \<le> mb_batch_index q"
    and qm: "(mb_batch_index q + 1) mod (int D div B) = int n mod (int D div B)"
    unfolding p0_def by blast
  have pk: "is_permutation (perms n) D" using perms by simp
  from mb_next_batch_ok [OF qX qY qL qB B qE qi pk] obtain Xb Yb Lb sp q1 where
    nb: "mb_next_batch (perms n) q = Inr ((Xb, Yb, \<lparr>meta_lengths = Lb, space_below = sp\<rparr>), q1)"
    and i1: "mb_batch_index q1 = (mb_batch_index q + 1) mod (int D div B)"
    and B1: "mb_batch_size q1 = B"
    and sh: "if mb_batch_index q1 = 0
            then nd_take (mb_X q) (perms n) = Inr (mb_X q1) \<and> nd_take (mb_Y q) (perms n) = Inr (mb_Y q1) \<and>
                 nd_take (mb_lengths q) (perms n) = Inr (mb_lengths q1)
            else mb_X q1 = mb_X q \<and> mb_Y q1 = mb_Y q \<and> mb_lengths q1 = mb_lengths q"
    and X1: "wf_array (mb_X q1)" "shape (mb_X q1) = [D, w]"
    and Y1: "wf_array (mb_Y q1)" "shape (mb_Y q1) = D # ty"
    and L1: "wf_array (mb_lengths q1)" "shape (mb_lengths q1) = D # tz"
    and rX: "nd_rows Xb = take (nat B) (drop (nat (mb_batch_index q1 * B)) (nd_rows (mb_X q1)))"
    and rY: "nd_rows Yb = take (nat B) (drop (nat (mb_batch_index q1 * B)) (nd_rows (mb_Y q1)))"
    and rL: "nd_rows Lb = take (nat B) (drop (nat (mb_batch_index q1 * B)) (nd_rows (mb_lengths q1)))"
    by blast
  have sh2: "if mb_batch_index q1 = 0
            then nd_take (mb_X q) (perms n) = Inr (mb_X q1) \<and>
                 nd_take (mb_Y q) (perms n) = Inr (mb_Y q1) \<and>
                 nd_take (mb_lengths q) (perms n) = Inr (mb_lengths q1) \<and>
                 nd_rows (mb_X q1) = map (\<lambda>i. nd_rows (mb_X q) ! i) (perms n) \<and>
                 nd_rows (mb_Y q1) = map (\<lambda>i. nd_rows (mb_Y q) ! i) (perms n) \<and>
                 nd_rows (mb_lengths q1) = map (\<lambda>i. nd_rows (mb_lengths q) ! i) (perms n)
            else mb_X q1 = mb_X q \<and> mb_Y q1 = mb_Y q \<and> mb_lengths q1 = mb_lengths q"
  proof (cases "mb_batch_index q1 = 0")
    case True
    then have tX: "nd_take (mb_X q) (perms n) = Inr (mb_X q1)"
      and tY: "nd_take (mb_Y q) (perms n) = Inr (mb_Y q1)"
      and tL: "nd_take (mb_lengths q) (perms n) = Inr (mb_lengths q1)"
      using sh by simp_all
    have "nd_rows (mb_X q1) = map (\<lambda>i. nd_rows (mb_X q) ! i) (perms n)"
      using qX pk tX by (rule nd_take_rows)
    moreover have "nd_rows (mb_Y q1) = map (\<lambda>i. nd_rows (mb_Y q) ! i) (perms n)"
      using qY pk tY by (rule nd_take_rows)
    moreover have "nd_rows (mb_lengths q1) = map (\<lambda>i. nd_rows (mb_lengths q) ! i) (perms n)"
      using qL pk tL by (rule nd_take_rows)
    ultimately show ?thesis using True tX tY tL by simp
  next
    case False
    then show ?thesis using sh by simp
  qed
  have aft: "mb_after perms (Suc n) p0 = Inr q1" using q nb by (simp add: bind_err_def)
  have i0: "0 \<le> mb_batch_index q1" and iB: "(mb_batch_index q1 + 1) * B \<le> int D"
    using batch_index_bounds(2,3) [OF B qi] i1 by simp_all
  have idx: "mb_batch_index q1 = int n mod (int D div B)" using i1 qm by simp
  have pos: "mb_batch_positions q1 =
             [nat (mb_batch_index q1) * nat B ..< nat (mb_batch_index q1) * nat B + nat B]"
    using B1 B(1) i0 by (rule mb_positions_eq)
  have up: "nat (mb_batch_index q1 * B + B) \<le> D"
    using iB by (simp add: algebra_simps nat_le_iff)
  have lX: "length (nd_rows (mb_X q1)) = D" using nd_rows_wf(1) [OF X1] .
  have lY: "length (nd_rows (mb_Y q1)) = D" using nd_rows_wf(1) [OF Y1] .
  have lL: "length (nd_rows (mb_lengths q1)) = D" using nd_rows_wf(1) [OF L1] .
  have pX: "nd_rows Xb = map (\<lambda>k. nd_rows (mb_X q1) ! k) (mb_batch_positions q1)"
    using positions_rows [OF i0 B(1), of "nd_rows (mb_X q1)"] up lX rX B1
    by (simp add: mb_batch_positions_def)
  have pY: "nd_rows Yb = map (\<lambda>k. nd_rows (mb_Y q1) ! k) (mb_batch_positions q1)"
    using positions_rows [OF i0 B(1), of "nd_rows (mb_Y q1)"] up lY rY B1
    by (simp add: mb_batch_positions_def)
  have pL: "nd_rows Lb = map (\<lambda>k. nd_rows (mb_lengths q1) ! k) (mb_batch_positions q1)"
    using positions_rows [OF i0 B(1), of "nd_rows (mb_lengths q1)"] up lL rL B1
    by (simp add: mb_batch_positions_def)
  have "mb_after perms n p0 = Inr q \<and>
           mb_next_batch (perms n) q = Inr ((Xb, Yb, \<lparr>meta_lengths = Lb, space_below = sp\<rparr>), q1) \<and>
           mb_after perms (Suc n) p0 = Inr q1 \<and>
           mb_batch_index q1 = int n mod (int D div B) \<and>
           (if mb_batch_index q1 = 0
            then nd_take (mb_X q) (perms n) = Inr (mb_X q1) \<and>
                 nd_take (mb_Y q) (perms n) = Inr (mb_Y q1) \<and>
                 nd_take (mb_lengths q) (perms n) = Inr (mb_lengths q1) \<and>
                 nd_rows (mb_X q1) = map (\<lambda>i. nd_rows (mb_X q) ! i) (perms n) \<and>
                 nd_rows (mb_Y q1) = map (\<lambda>i. nd_rows (mb_Y q) ! i) (perms n) \<and>
                 nd_rows (mb_lengths q1) = map (\<lambda>i. nd_rows (mb_lengths q) ! i) (perms n)
            else mb_X q1 = mb_X q \<and> mb_Y q1 = mb_Y q \<and> mb_lengths q1 = mb_lengths q) \<and>
           mb_batch_positions q1 =
             [nat (mb_batch_index q1) * nat B ..< nat (mb_batch_index q1) * nat B + nat B] \<and>
           nd_rows Xb = map (\<lambda>k. nd_rows (mb_X q1) ! k) (mb_batch_positions q1) \<and>
           nd_rows Yb = map (\<lambda>k. nd_rows (mb_Y q1) ! k) (mb_batch_positions q1) \<and>
           nd_rows (meta_lengths \<lparr>meta_lengths = Lb, space_below = sp\<rparr>)
             = map (\<lambda>k. nd_rows (mb_lengths q1) ! k) (mb_batch_positions q1)"
    using q nb aft idx sh2 pos pX pY pL by simp
  then show ?thesis by blast
qed

text \<open>
  C9. A minibatch provider over well-formed arrays of \<open>D\<close> rows with batch size \<open>B\<close>,
  \<open>1 \<le> B \<le> D\<close>, is constructed, and every call of \<^verbatim>\<open>next_batch\<close> returns. Call
  \<open>n\<close>, counted from 0 (the \<open>n + 1\<close>-th call), sets the batch index to
  \<open>n mod (D div B)\<close>; when this index is 0 it replaces the three arrays by their
  rows under the drawn permutation \<open>perms n\<close>, so that row \<open>j\<close> of each new array is
  row \<open>perms n ! j\<close> of the old one, the same permutation for \<open>X\<close>, \<open>Y\<close> and the
  lengths, and it leaves them as they are otherwise; and the
  batch is the rows of the (then current) arrays at the positions
  \<open>index * B, ..., index * B + B - 1\<close>. The positions of the calls of one epoch,
  one after the other, are \<open>0, ..., (D div B) * B - 1\<close>.
\<close>

theorem minibatch_cycle:
  assumes wfX: "wf_array X" "shape X = [D, w]"
    and wfY: "wf_array Y" "shape Y = D # ty"
    and wfL: "wf_array L" "shape L = D # tz"
    and B: "0 < B" "B \<le> int D"
    and perms: "\<forall>k. is_permutation (perms k) D"
  shows "\<exists>p0. MinibatchDataProvider_init X Y L B = Inr p0 \<and>
           (\<exists>q Xb Yb m q'.
              mb_after perms n p0 = Inr q \<and>
              mb_next_batch (perms n) q = Inr ((Xb, Yb, m), q') \<and>
              mb_after perms (Suc n) p0 = Inr q' \<and>
              mb_batch_index q' = int n mod (int D div B) \<and>
              (if mb_batch_index q' = 0
               then nd_take (mb_X q) (perms n) = Inr (mb_X q') \<and>
                    nd_take (mb_Y q) (perms n) = Inr (mb_Y q') \<and>
                    nd_take (mb_lengths q) (perms n) = Inr (mb_lengths q') \<and>
                    nd_rows (mb_X q') = map (\<lambda>i. nd_rows (mb_X q) ! i) (perms n) \<and>
                    nd_rows (mb_Y q') = map (\<lambda>i. nd_rows (mb_Y q) ! i) (perms n) \<and>
                    nd_rows (mb_lengths q') = map (\<lambda>i. nd_rows (mb_lengths q) ! i) (perms n)
               else mb_X q' = mb_X q \<and> mb_Y q' = mb_Y q \<and> mb_lengths q' = mb_lengths q) \<and>
              mb_batch_positions q' =
                [nat (mb_batch_index q') * nat B ..< nat (mb_batch_index q') * nat B + nat B] \<and>
              nd_rows Xb = map (\<lambda>k. nd_rows (mb_X q') ! k) (mb_batch_positions q') \<and>
              nd_rows Yb = map (\<lambda>k. nd_rows (mb_Y q') ! k) (mb_batch_positions q') \<and>
              nd_rows (meta_lengths m) = map (\<lambda>k. nd_rows (mb_lengths q') ! k) (mb_batch_positions q')) \<and>
           concat (map (mb_call_positions perms p0)
                     [e * (D div nat B) ..< e * (D div nat B) + D div nat B])
             = [0 ..< (D div nat B) * nat B]"
proof -
  let ?p0 = "\<lparr>mb_X = X, mb_Y = Y, mb_lengths = L, mb_batch_size = B,
              mb_batch_index = - 1, mb_batches_per_epoch = int D div B\<rparr>"
  let ?m = "D div nat B"
  have init: "MinibatchDataProvider_init X Y L B = Inr ?p0"
    using wfX(2) B(1) by (simp add: MinibatchDataProvider_init_def shape0_def py_div_def bind_err_def)
  have m_int: "int D div B = int ?m" using B(1) by (simp add: zdiv_int)
  have pos: "mb_call_positions perms ?p0 (e * ?m + i) = [i * nat B ..< i * nat B + nat B]"
    if i: "i < ?m" for i
  proof -
    from mb_call [OF wfX wfY wfL B perms, of "e * ?m + i"] obtain q' where
      aft: "mb_after perms (Suc (e * ?m + i)) ?p0 = Inr q'"
      and idx: "mb_batch_index q' = int (e * ?m + i) mod (int D div B)"
      and ps: "mb_batch_positions q' =
                [nat (mb_batch_index q') * nat B ..< nat (mb_batch_index q') * nat B + nat B]"
      by blast
    have "int (e * ?m + i) mod int ?m = int ((e * ?m + i) mod ?m)" by (simp only: zmod_int)
    also have "(e * ?m + i) mod ?m = i" using i by simp
    finally have "mb_batch_index q' = int i" using idx m_int by simp
    then show ?thesis using aft ps by (simp add: mb_call_positions_def)
  qed
  have "[e * ?m ..< e * ?m + ?m] = map (\<lambda>i. i + e * ?m) [0..<?m]"
    by (simp add: map_add_upt add.commute)
  then have "map (mb_call_positions perms ?p0) [e * ?m ..< e * ?m + ?m]
        = map (\<lambda>i. mb_call_positions perms ?p0 (e * ?m + i)) [0..<?m]"
    by (simp add: comp_def add.commute)
  also have "\<dots> = map (\<lambda>i. [i * nat B ..< i * nat B + nat B]) [0..<?m]"
    using pos by (intro map_cong) simp_all
  finally have epoch: "concat (map (mb_call_positions perms ?p0) [e * ?m ..< e * ?m + ?m])
      = [0 ..< ?m * nat B]"
    by (simp only: concat_batch_ranges)
  show ?thesis
    using init mb_call [OF wfX wfY wfL B perms, of n] epoch by (intro exI [of _ ?p0]) blast
qed

theorem minibatch_cycle_witness:
  "wf_array \<lparr>shape = [5, 1], data = [10, 20, 30, 40, 50 :: int]\<rparr> \<and>
   wf_array \<lparr>shape = [5], data = [0, 1, 0, 1, 0 :: int]\<rparr> \<and>
   wf_array \<lparr>shape = [5], data = [1, 1, 1, 1, 1 :: nat]\<rparr> \<and>
   (0 :: int) < 2 \<and> 2 \<le> int 5 \<and>
   (\<forall>k :: nat. is_permutation [4, 3, 2, 1, 0] 5) \<and>
   (\<exists>p0. MinibatchDataProvider_init \<lparr>shape = [5, 1], data = [10, 20, 30, 40, 50 :: int]\<rparr>
            \<lparr>shape = [5], data = [0, 1, 0, 1, 0 :: int]\<rparr>
            \<lparr>shape = [5], data = [1, 1, 1, 1, 1 :: nat]\<rparr> 2 = Inr p0 \<and>
         (\<exists>q'. mb_after (\<lambda>k. [4, 3, 2, 1, 0]) (Suc 0) p0 = Inr q' \<and> mb_batch_index q' = 0 \<and>
               nd_rows (mb_X q') = [[50], [40], [30], [20], [10]] \<and>
               nd_rows (mb_Y q') = [[0], [1], [0], [1], [0]] \<and>
               mb_batch_positions q' = [0, 1]) \<and>
         (\<exists>q'. mb_after (\<lambda>k. [4, 3, 2, 1, 0]) (Suc 1) p0 = Inr q' \<and> mb_batch_index q' = 1 \<and>
               mb_batch_positions q' = [2, 3]) \<and>
         concat (map (mb_call_positions (\<lambda>k. [4, 3, 2, 1, 0]) p0) [0 ..< 2]) = [0, 1, 2, 3])"
proof -
  let ?X = "\<lparr>shape = [5, 1], data = [10, 20, 30, 40, 50 :: int]\<rparr>"
  let ?Y = "\<lparr>shape = [5], data = [0, 1, 0, 1, 0 :: int]\<rparr>"
  let ?L = "\<lparr>shape = [5], data = [1, 1, 1, 1, 1 :: nat]\<rparr>"
  let ?P = "\<lambda>k :: nat. [4, 3, 2, 1, 0 :: nat]"
  have wX: "wf_array ?X" and sX: "shape ?X = [5, 1]" by (simp_all add: wf_array_def)
  have wY: "wf_array ?Y" and sY: "shape ?Y = 5 # []" by (simp_all add: wf_array_def)
  have wL: "wf_array ?L" and sL: "shape ?L = 5 # []" by (simp_all add: wf_array_def)
  have B: "(0 :: int) < 2" "2 \<le> int 5" by simp_all
  have "set [4, 3, 2, 1, 0 :: nat] = {0..<5}" by code_simp
  then have pm: "\<forall>k :: nat. is_permutation (?P k) 5"
    by (simp add: is_permutation_def)
  from minibatch_cycle [OF wX sX wY sY wL sL B pm, of 1 0] obtain p0 q' where
    init: "MinibatchDataProvider_init ?X ?Y ?L 2 = Inr p0"
    and aft: "mb_after ?P (Suc 1) p0 = Inr q'"
    and idx: "mb_batch_index q' = int 1 mod (int 5 div 2)"
    and pos: "mb_batch_positions q' =
                [nat (mb_batch_index q') * nat 2 ..< nat (mb_batch_index q') * nat 2 + nat 2]"
    and ep: "concat (map (mb_call_positions ?P p0)
                     [0 * (5 div nat 2) ..< 0 * (5 div nat 2) + 5 div nat 2])
             = [0 ..< (5 div nat 2) * nat 2]"
    by blast
  from minibatch_cycle [OF wX sX wY sY wL sL B pm, of 0 0] obtain p1 q0 r' where
    init1: "MinibatchDataProvider_init ?X ?Y ?L 2 = Inr p1"
    and q0: "mb_after ?P 0 p1 = Inr q0"
    and aft0: "mb_after ?P (Suc 0) p1 = Inr r'"
    and idx0: "mb_batch_index r' = int 0 mod (int 5 div 2)"
    and sh0: "if mb_batch_index r' = 0
               then nd_take (mb_X q0) (?P 0) = Inr (mb_X r') \<and>
                    nd_take (mb_Y q0) (?P 0) = Inr (mb_Y r') \<and>
                    nd_take (mb_lengths q0) (?P 0) = Inr (mb_lengths r') \<and>
                    nd_rows (mb_X r') = map (\<lambda>i. nd_rows (mb_X q0) ! i) (?P 0) \<and>
                    nd_rows (mb_Y r') = map (\<lambda>i. nd_rows (mb_Y q0) ! i) (?P 0) \<and>
                    nd_rows (mb_lengths r') = map (\<lambda>i. nd_rows (mb_lengths q0) ! i) (?P 0)
               else mb_X r' = mb_X q0 \<and> mb_Y r' = mb_Y q0 \<and> mb_lengths r' = mb_lengths q0"
    and pos0: "mb_batch_positions r' =
                [nat (mb_batch_index r') * nat 2 ..< nat (mb_batch_index r') * nat 2 + nat 2]"
    by blast
  have p1: "p1 = p0" using init init1 by simp
  have q0p: "q0 = p0" using q0 p1 by simp
  have "MinibatchDataProvider_init ?X ?Y ?L 2
     = Inr \<lparr>mb_X = ?X, mb_Y = ?Y, mb_lengths = ?L, mb_batch_size = 2,
            mb_batch_index = - 1, mb_batches_per_epoch = 2\<rparr>"
    by (simp add: MinibatchDataProvider_init_def shape0_def py_div_def bind_err_def)
  then have pX: "mb_X p0 = ?X" and pY: "mb_Y p0 = ?Y" using init by auto
  have idx00: "mb_batch_index r' = 0" using idx0 by simp
  have eX: "nd_rows (mb_X r') = map (\<lambda>i. nd_rows (mb_X q0) ! i) (?P 0)"
    and eY: "nd_rows (mb_Y r') = map (\<lambda>i. nd_rows (mb_Y q0) ! i) (?P 0)"
    using sh0 idx00 by simp_all
  have rX: "map (\<lambda>i. nd_rows ?X ! i) [4, 3, 2, 1, 0] = [[50], [40], [30], [20], [10]]"
    by code_simp
  have rY: "map (\<lambda>i. nd_rows ?Y ! i) [4, 3, 2, 1, 0] = [[0], [1], [0], [1], [0]]"
    by code_simp
  have rowsX: "nd_rows (mb_X r') = [[50], [40], [30], [20], [10]]"
    using eX unfolding q0p pX rX .
  have rowsY: "nd_rows (mb_Y r') = [[0], [1], [0], [1], [0]]"
    using eY unfolding q0p pY rY .
  have pos00: "mb_batch_positions r' = [0, 1]" using pos0 by (simp add: idx00 upt_rec)
  have first: "\<exists>q'. mb_after ?P (Suc 0) p0 = Inr q' \<and> mb_batch_index q' = 0 \<and>
               nd_rows (mb_X q') = [[50], [40], [30], [20], [10]] \<and>
               nd_rows (mb_Y q') = [[0], [1], [0], [1], [0]] \<and>
               mb_batch_positions q' = [0, 1]"
    using aft0 idx00 rowsX rowsY pos00 unfolding p1 by blast
  have idx1: "mb_batch_index q' = 1" using idx by simp
  have pos1: "mb_batch_positions q' = [2, 3]" using pos by (simp add: idx1 upt_rec)
  have a: "[0 * (5 div nat 2) ..< 0 * (5 div nat 2) + 5 div nat 2] = [0 ..< 2]" by code_simp
  have b: "[0 ..< (5 div nat 2) * nat 2] = [0, 1, 2, 3]" by code_simp
  have ep1: "concat (map (mb_call_positions ?P p0) [0 ..< 2]) = [0, 1, 2, 3]"
    using ep unfolding a b .
  have "\<exists>q'. mb_after ?P (Suc 1) p0 = Inr q' \<and> mb_batch_index q' = 1 \<and>
               mb_batch_positions q' = [2, 3]"
    using aft idx1 pos1 by blast
  then have "\<exists>p0. MinibatchDataProvider_init ?X ?Y ?L 2 = Inr p0 \<and>
         (\<exists>q'. mb_after ?P (Suc 0) p0 = Inr q' \<and> mb_batch_index q' = 0 \<and>
               nd_rows (mb_X q') = [[50], [40], [30], [20], [10]] \<and>
               nd_rows (mb_Y q') = [[0], [1], [0], [1], [0]] \<and>
               mb_batch_positions q' = [0, 1]) \<and>
         (\<exists>q'. mb_after ?P (Suc 1) p0 = Inr q' \<and> mb_batch_index q' = 1 \<and>
               mb_batch_positions q' = [2, 3]) \<and>
         concat (map (mb_call_positions ?P p0) [0 ..< 2]) = [0, 1, 2, 3]"
    using init ep1 first by blast
  moreover have "\<forall>k :: nat. is_permutation [4, 3, 2, 1, 0] 5" using pm by simp
  ultimately show ?thesis using wX wY wL B by blast
qed

section \<open>Positions and multi-indices\<close>

lemma valid_index_iff:
  "valid_index s I \<longleftrightarrow> length I = length s \<and> (\<forall>k < length s. I ! k < s ! k)"
proof (induction s I rule: valid_index.induct)
  case 1
  then show ?case by simp
next
  case (2 d ds i "is")
  show ?case
  proof
    assume v: "valid_index (d # ds) (i # is)"
    then have "length is = length ds" and a: "\<forall>k < length ds. is ! k < ds ! k" and "i < d"
      using 2 by simp_all
    then show "length (i # is) = length (d # ds) \<and> (\<forall>k < length (d # ds). (i # is) ! k < (d # ds) ! k)"
      by (auto simp: nth_Cons split: nat.splits)
  next
    assume r: "length (i # is) = length (d # ds) \<and> (\<forall>k < length (d # ds). (i # is) ! k < (d # ds) ! k)"
    then have "i < d" by auto
    moreover have "\<forall>k < length ds. is ! k < ds ! k"
    proof (intro allI impI)
      fix k assume "k < length ds"
      then have "(i # is) ! Suc k < (d # ds) ! Suc k" using r by (metis Suc_less_eq length_Cons)
      then show "is ! k < ds ! k" by simp
    qed
    ultimately show "valid_index (d # ds) (i # is)" using r 2 by simp
  qed
qed simp_all

lemma ravel_less:
  "valid_index s I \<Longrightarrow> ravel s I < prod_list s"
proof (induction s I rule: valid_index.induct)
  case (2 d ds i "is")
  then have r: "ravel ds is < prod_list ds" and i: "i < d" by simp_all
  have "i * prod_list ds + ravel ds is < i * prod_list ds + prod_list ds" using r by simp
  also have "\<dots> = Suc i * prod_list ds" by simp
  also have "\<dots> \<le> d * prod_list ds" using i by (intro mult_le_mono1) simp
  finally show ?case by simp
qed simp_all

lemma unravel_ravel:
  "valid_index s I \<Longrightarrow> unravel s (ravel s I) = I"
proof (induction s I rule: valid_index.induct)
  case (2 d ds i "is")
  then have r: "ravel ds is < prod_list ds" by (simp add: ravel_less)
  have ih: "unravel ds (ravel ds is) = is" using 2 by simp
  show ?case using r ih by simp
qed simp_all

lemma valid_unravel:
  "j < prod_list s \<Longrightarrow> valid_index s (unravel s j)"
proof (induction s arbitrary: j)
  case Nil
  then show ?case by simp
next
  case (Cons d ds)
  have pos: "0 < prod_list ds" using Cons.prems by (cases "prod_list ds = 0") simp_all
  have "j div prod_list ds < d"
    using Cons.prems pos by (simp add: less_mult_imp_div_less mult.commute)
  moreover have "valid_index ds (unravel ds (j mod prod_list ds))"
    using pos by (intro Cons.IH) simp
  ultimately show ?case by simp
qed

lemma ravel_unravel:
  "j < prod_list s \<Longrightarrow> ravel s (unravel s j) = j"
proof (induction s arbitrary: j)
  case Nil
  then show ?case by simp
next
  case (Cons d ds)
  have pos: "0 < prod_list ds" using Cons.prems by (cases "prod_list ds = 0") simp_all
  have "ravel ds (unravel ds (j mod prod_list ds)) = j mod prod_list ds"
    using pos by (intro Cons.IH) simp
  then show ?case by simp
qed

section \<open>Permutations of dimensions\<close>

lemma first_index_less: "x \<in> set xs \<Longrightarrow> first_index xs x < length xs"
  by (induction xs) auto

lemma nth_first_index: "x \<in> set xs \<Longrightarrow> xs ! first_index xs x = x"
  by (induction xs) auto

lemma first_index_nth: "distinct xs \<Longrightarrow> k < length xs \<Longrightarrow> first_index xs (xs ! k) = k"
proof (induction xs arbitrary: k)
  case Nil
  then show ?case by simp
next
  case (Cons x xs)
  show ?case
  proof (cases k)
    case 0
    then show ?thesis by simp
  next
    case (Suc k')
    then have "xs ! k' \<in> set xs" using Cons.prems by simp
    then have "x \<noteq> xs ! k'" using Cons.prems by auto
    then show ?thesis using Suc Cons by simp
  qed
qed

lemma first_index_inj:
  "x \<in> set xs \<Longrightarrow> y \<in> set xs \<Longrightarrow> first_index xs x = first_index xs y \<Longrightarrow> x = y"
  by (metis nth_first_index)

lemma map_err_index_of:
  "set ys \<subseteq> set xs \<Longrightarrow> map_err (index_of xs) ys = Inr (map (first_index xs) ys)"
  by (induction ys) (simp_all add: index_of_def bind_err_def)

lemma same_labels_length:
  assumes "distinct xs" and "distinct ys" and "set xs = set ys"
  shows "length ys = length xs"
  using assms distinct_card [of xs] distinct_card [of ys] by simp

lemma label_permutation:
  assumes "distinct cur" and "distinct tgt" and "set cur = set tgt"
  shows "is_permutation (map (first_index cur) tgt) (length cur)"
proof -
  have inj: "inj_on (first_index cur) (set tgt)"
  proof (rule inj_onI)
    fix x y assume "x \<in> set tgt" "y \<in> set tgt" "first_index cur x = first_index cur y"
    then show "x = y" using assms(3) first_index_inj [of x cur y] by simp
  qed
  have d: "distinct (map (first_index cur) tgt)"
    using assms(2) inj by (simp add: distinct_map)
  have sub: "set (map (first_index cur) tgt) \<subseteq> {0..<length cur}"
    using assms(3) by (auto simp: first_index_less)
  have "card (set (map (first_index cur) tgt)) = length cur"
    using d distinct_card [of "map (first_index cur) tgt"] same_labels_length [OF assms] by simp
  then have "set (map (first_index cur) tgt) = {0..<length cur}"
    using sub by (intro card_subset_eq) simp_all
  then show ?thesis using d by (simp add: is_permutation_def)
qed

lemma permutation_first_index:
  assumes "is_permutation p n" and "i < n"
  shows "first_index p i < n" and "p ! first_index p i = i"
proof -
  have mem: "i \<in> set p" using assms by (simp add: is_permutation_def)
  show "first_index p i < n"
    using first_index_less [OF mem] is_permutation_length [OF assms(1)] by simp
  show "p ! first_index p i = i" using mem by (rule nth_first_index)
qed

lemma permutation_nth:
  assumes "is_permutation p n" and "k < n"
  shows "p ! k < n" and "first_index p (p ! k) = k"
proof -
  have len: "length p = n" using assms(1) by (rule is_permutation_length)
  have "p ! k \<in> set p" using assms(2) len by simp
  then show "p ! k < n" using assms(1) by (simp add: is_permutation_def)
  show "first_index p (p ! k) = k"
    using assms len by (intro first_index_nth) (simp_all add: is_permutation_def)
qed

lemma inverse_permutation:
  assumes "is_permutation p n"
  shows "is_permutation (map (first_index p) [0..<n]) n"
    and "map (first_index (map (first_index p) [0..<n])) [0..<n] = p"
proof -
  let ?q = "map (first_index p) [0..<n]"
  have len: "length p = n" using assms by (rule is_permutation_length)
  have inj: "inj_on (first_index p) (set [0..<n])"
  proof (rule inj_onI)
    fix x y assume "x \<in> set [0..<n]" "y \<in> set [0..<n]" "first_index p x = first_index p y"
    then have x: "x < n" and y: "y < n" and e: "first_index p x = first_index p y" by simp_all
    have "x = p ! first_index p x" using permutation_first_index(2) [OF assms x] by simp
    also have "\<dots> = p ! first_index p y" by (simp only: e)
    also have "\<dots> = y" using permutation_first_index(2) [OF assms y] .
    finally show "x = y" .
  qed
  have d: "distinct ?q" using inj by (simp add: distinct_map)
  have sub: "set ?q \<subseteq> {0..<n}" using permutation_first_index(1) [OF assms] by auto
  have "card (set ?q) = n" using d distinct_card [of ?q] by simp
  then have "set ?q = {0..<n}" using sub by (intro card_subset_eq) simp_all
  then show q: "is_permutation ?q n" using d by (simp add: is_permutation_def)
  show "map (first_index ?q) [0..<n] = p"
  proof (rule nth_equalityI)
    show "length (map (first_index ?q) [0..<n]) = length p" using len by simp
  next
    fix k assume "k < length (map (first_index ?q) [0..<n])"
    then have k: "k < n" by simp
    have pk: "p ! k < n" using permutation_nth(1) [OF assms k] .
    have "?q ! (p ! k) = k" using pk permutation_nth(2) [OF assms k] by simp
    then have "first_index ?q k = first_index ?q (?q ! (p ! k))" by simp
    also have "\<dots> = p ! k" using d pk by (intro first_index_nth) simp_all
    finally show "map (first_index ?q) [0..<n] ! k = p ! k" using k by simp
  qed
qed

lemma prod_list_permutation:
  fixes s :: "nat list"
  assumes "is_permutation p (length s)"
  shows "prod_list (map (\<lambda>k. s ! k) p) = prod_list s"
proof -
  have dp: "distinct p" using assms by (simp add: is_permutation_def)
  have "prod_list (map (\<lambda>k. s ! k) p) = prod (\<lambda>k. s ! k) (set p)"
    using dp by (rule prod.distinct_set_conv_list [symmetric])
  also have "\<dots> = prod (\<lambda>k. s ! k) (set [0..<length s])"
    using assms by (simp add: is_permutation_def)
  also have "\<dots> = prod_list (map (\<lambda>k. s ! k) [0..<length s])"
    by (rule prod.distinct_set_conv_list) simp
  also have "\<dots> = prod_list s" by (simp only: map_nth)
  finally show ?thesis .
qed

section \<open>Transposition and its inverse\<close>

lemma np_transpose_permutation:
  assumes "is_permutation p (length (shape A))"
  shows "np_transpose A p =
           Inr \<lparr>shape = map (\<lambda>k. shape A ! k) p,
                data = map (\<lambda>j. data A ! ravel (shape A)
                                  (source_index p (unravel (map (\<lambda>k. shape A ! k) p) j)))
                         [0..<prod_list (map (\<lambda>k. shape A ! k) p)]\<rparr>"
proof -
  have "length p = length (shape A)" using assms by (rule is_permutation_length)
  moreover have "\<not> (\<exists>x \<in> set p. length (shape A) \<le> x)"
    using assms by (auto simp: is_permutation_def)
  moreover have "distinct p" using assms by (simp add: is_permutation_def)
  ultimately show ?thesis by (simp add: np_transpose_def Let_def)
qed

lemma valid_index_permuted:
  assumes "valid_index s J" and "is_permutation p (length s)"
  shows "valid_index (map (\<lambda>k. s ! k) p) (map (\<lambda>k. J ! k) p)"
proof -
  have len: "length p = length s" using assms(2) by (rule is_permutation_length)
  have J: "length J = length s" "\<forall>k < length s. J ! k < s ! k"
    using assms(1) by (simp_all add: valid_index_iff)
  have "\<forall>k < length p. J ! (p ! k) < s ! (p ! k)"
    using J(2) permutation_nth(1) [OF assms(2)] len by simp
  then show ?thesis by (simp add: valid_index_iff)
qed

lemma source_index_inverse:
  assumes "is_permutation p n"
  shows "source_index (map (first_index p) [0..<n]) J = map (\<lambda>k. J ! k) p"
proof -
  have "source_index (map (first_index p) [0..<n]) J
        = map (\<lambda>k. J ! k) (map (first_index (map (first_index p) [0..<n])) [0..<n])"
    by (simp add: source_index_def comp_def)
  then show ?thesis by (simp only: inverse_permutation(2) [OF assms])
qed

lemma source_index_permuted:
  assumes "is_permutation p n" and "length J = n"
  shows "source_index p (map (\<lambda>k. J ! k) p) = J"
proof (rule nth_equalityI)
  have len: "length p = n" using assms(1) by (rule is_permutation_length)
  show "length (source_index p (map (\<lambda>k. J ! k) p)) = length J"
    using len assms(2) by (simp add: source_index_def)
  fix i assume "i < length (source_index p (map (\<lambda>k. J ! k) p))"
  then have i: "i < n" using len by (simp add: source_index_def)
  have f: "first_index p i < n" "p ! first_index p i = i"
    using permutation_first_index [OF assms(1) i] by simp_all
  show "source_index p (map (\<lambda>k. J ! k) p) ! i = J ! i"
    using i f len by (simp add: source_index_def)
qed

lemma transpose_roundtrip:
  assumes wf: "wf_array A" and p: "is_permutation p (length (shape A))"
  shows "\<exists>A1. np_transpose A p = Inr A1 \<and> wf_array A1 \<and>
           shape A1 = map (\<lambda>k. shape A ! k) p \<and>
           np_transpose A1 (map (first_index p) [0..<length (shape A)]) = Inr A"
proof -
  let ?s = "shape A"
  let ?n = "length ?s"
  let ?rs = "map (\<lambda>k. ?s ! k) p"
  let ?q = "map (first_index p) [0..<?n]"
  let ?A1 = "\<lparr>shape = ?rs,
              data = map (\<lambda>j. data A ! ravel ?s (source_index p (unravel ?rs j)))
                       [0..<prod_list ?rs]\<rparr>"
  have len: "length p = ?n" using p by (rule is_permutation_length)
  have t1: "np_transpose A p = Inr ?A1" using p by (rule np_transpose_permutation)
  have wf1: "wf_array ?A1" by (simp add: wf_array_def)
  have q: "is_permutation ?q (length (shape ?A1))"
    using inverse_permutation(1) [OF p] len by simp
  have sh: "map (\<lambda>k. ?rs ! k) ?q = ?s"
  proof (rule nth_equalityI)
    show "length (map (\<lambda>k. ?rs ! k) ?q) = length ?s" by simp
    fix k assume "k < length (map (\<lambda>k. ?rs ! k) ?q)"
    then have k: "k < ?n" by simp
    have f: "first_index p k < ?n" "p ! first_index p k = k"
      using permutation_first_index [OF p k] by simp_all
    show "map (\<lambda>k. ?rs ! k) ?q ! k = ?s ! k" using k f len by simp
  qed
  have pr: "prod_list ?rs = prod_list ?s" using p by (rule prod_list_permutation)
  have dat: "map (\<lambda>j. data ?A1 ! ravel ?rs (source_index ?q (unravel ?s j))) [0..<prod_list ?s]
             = data A"
  proof (rule nth_equalityI)
    show "length (map (\<lambda>j. data ?A1 ! ravel ?rs (source_index ?q (unravel ?s j))) [0..<prod_list ?s])
          = length (data A)" using wf by (simp add: wf_array_def)
    fix j assume "j < length (map (\<lambda>j. data ?A1 ! ravel ?rs (source_index ?q (unravel ?s j))) [0..<prod_list ?s])"
    then have j: "j < prod_list ?s" by simp
    let ?J = "unravel ?s j"
    let ?J1 = "map (\<lambda>k. ?J ! k) p"
    have vJ: "valid_index ?s ?J" using j by (rule valid_unravel)
    have lJ: "length ?J = ?n" using vJ by (simp add: valid_index_iff)
    have si: "source_index ?q ?J = ?J1" using p by (rule source_index_inverse)
    have vJ1: "valid_index ?rs ?J1" using vJ p by (rule valid_index_permuted)
    have j1: "ravel ?rs ?J1 < prod_list ?rs" using vJ1 by (rule ravel_less)
    have un: "unravel ?rs (ravel ?rs ?J1) = ?J1" using vJ1 by (rule unravel_ravel)
    have srcJ: "source_index p ?J1 = ?J" using p lJ by (rule source_index_permuted)
    have "data ?A1 ! ravel ?rs ?J1 = data A ! ravel ?s (source_index p (unravel ?rs (ravel ?rs ?J1)))"
      using j1 by simp
    also have "\<dots> = data A ! ravel ?s ?J" by (simp only: un srcJ)
    also have "\<dots> = data A ! j" using j by (simp only: ravel_unravel)
    finally have "data ?A1 ! ravel ?rs (source_index ?q ?J) = data A ! j" by (simp only: si)
    then show "map (\<lambda>j. data ?A1 ! ravel ?rs (source_index ?q (unravel ?s j))) [0..<prod_list ?s] ! j
               = data A ! j" using j by simp
  qed
  have "np_transpose ?A1 ?q =
          Inr \<lparr>shape = map (\<lambda>k. shape ?A1 ! k) ?q,
               data = map (\<lambda>j. data ?A1 ! ravel (shape ?A1)
                                 (source_index ?q (unravel (map (\<lambda>k. shape ?A1 ! k) ?q) j)))
                        [0..<prod_list (map (\<lambda>k. shape ?A1 ! k) ?q)]\<rparr>"
    using q by (rule np_transpose_permutation)
  moreover have "shape ?A1 = ?rs" by simp
  ultimately have "np_transpose ?A1 ?q =
          Inr \<lparr>shape = ?s,
               data = map (\<lambda>j. data ?A1 ! ravel ?rs (source_index ?q (unravel ?s j)))
                        [0..<prod_list ?s]\<rparr>"
    by (simp only: sh)
  then have t2: "np_transpose ?A1 ?q = Inr A" by (simp only: dat) simp
  show ?thesis using t1 wf1 t2 by (intro exI [of _ ?A1]) simp
qed

section \<open>What transform computes\<close>

lemma fold_axes_append: "fold_axes (axs @ bxs) = fold_axes axs @ fold_axes bxs"
  by (simp add: fold_axes_def)

lemma fold_axes_Cons: "fold_axes (ax # axs) = list_of ax @ fold_axes axs"
  by (simp add: fold_axes_def)

lemma fold_axes_Names:
  "\<forall>l \<in> set ls. length l = 1 \<Longrightarrow> fold_axes (map Name ls) = ls"
proof (induction ls)
  case Nil
  then show ?case by (simp add: fold_axes_def)
next
  case (Cons l ls)
  then obtain c where "l = [c]" by (cases l) auto
  then show ?case using Cons by (simp add: fold_axes_Cons)
qed

lemma prod_sizes_of_axes:
  "distinct (fold_axes axs) \<Longrightarrow>
   prod_list (map (size_of_axis S) axs)
     = prod_list (map snd (filter (\<lambda>p. fst p \<in> set (fold_axes axs)) (extent S)))"
proof (induction axs)
  case Nil
  then show ?case by (simp add: fold_axes_def)
next
  case (Cons ax axs)
  have d: "distinct (fold_axes axs)" and disj: "set (list_of ax) \<inter> set (fold_axes axs) = {}"
    using Cons.prems by (simp_all add: fold_axes_Cons)
  have one: "size_of_axis S ax
             = prod_list (map snd (filter (\<lambda>p. fst p \<in> set (list_of ax)) (extent S)))"
    by (simp add: size_of_axis_def case_prod_unfold)
  have "filter (\<lambda>p. fst p \<in> set (fold_axes (ax # axs))) (extent S)
        = filter (\<lambda>p. fst p \<in> set (list_of ax) \<or> fst p \<in> set (fold_axes axs)) (extent S)"
    by (simp add: fold_axes_Cons)
  moreover have "prod_list (map snd (filter (\<lambda>p. fst p \<in> set (list_of ax) \<or> fst p \<in> set (fold_axes axs)) (extent S)))
        = prod_list (map snd (filter (\<lambda>p. fst p \<in> set (list_of ax)) (extent S))) *
          prod_list (map snd (filter (\<lambda>p. fst p \<in> set (fold_axes axs)) (extent S)))"
    using disj by (intro prod_filter_split) auto
  ultimately show ?case using Cons.IH [OF d] one by simp
qed

lemma prod_shape_sp:
  assumes "distinct (folded_axes S)" and "set (map fst (extent S)) \<subseteq> set (folded_axes S)"
  shows "prod_list (shape_sp S) = size_sp S"
proof -
  have "filter (\<lambda>p. fst p \<in> set (fold_axes (axes S))) (extent S) = extent S"
    using assms(2) by (intro filter_True) (auto simp: folded_axes_def)
  then show ?thesis
    using prod_sizes_of_axes [of "axes S" S] assms(1)
    by (simp add: shape_sp_def size_sp_def folded_axes_def)
qed

lemma foldl_od_set_ones:
  assumes "distinct ms" and "set ms \<inter> set (map fst d) = {}"
  shows "foldl (\<lambda>e ax. od_set e ax 1) d ms = d @ map (\<lambda>l. (l, 1)) ms"
proof -
  have "foldl (\<lambda>e ax. od_set e ax 1) d ms
        = foldl (\<lambda>d (k, v). od_set d k v) d (map (\<lambda>l. (l, 1)) ms)"
    by (simp add: foldl_map)
  also have "\<dots> = d @ map (\<lambda>l. (l, 1)) ms"
    using assms by (intro foldl_od_set_distinct) (simp_all add: comp_def)
  finally show ?thesis .
qed

lemma new_space_of_distinct:
  assumes "distinct (fold_axes new_axes)"
  shows "new_space_of S new_axes =
           \<lparr>axes = new_axes, extent = map (\<lambda>ax. (ax, od_get (extent S) ax 1)) (fold_axes new_axes)\<rparr>"
  using assms by (simp add: new_space_of_def od_of_pairs_distinct comp_def)

lemma missing_axes_facts:
  assumes "set_order_ok set_order"
  shows "distinct (missing_axes set_order S tgt)"
    and "set (missing_axes set_order S tgt) = set tgt - set (folded_axes S)"
proof -
  let ?xs = "remdups (filter (\<lambda>ax. ax \<notin> set (folded_axes S)) tgt)"
  have d: "distinct ?xs" by simp
  from assms d have r: "distinct (set_order ?xs) \<and> set (set_order ?xs) = set ?xs"
    unfolding set_order_ok_def by blast
  show "distinct (missing_axes set_order S tgt)" using r by (simp add: missing_axes_def)
  show "set (missing_axes set_order S tgt) = set tgt - set (folded_axes S)"
    using r by (auto simp: missing_axes_def)
qed

lemma expanded_space_of_subset:
  assumes so: "set_order_ok set_order" and wf: "wf_space S"
    and sub: "set (folded_axes S) \<subseteq> set (fold_axes new_axes)"
    and single: "\<forall>l \<in> set (fold_axes new_axes) - set (folded_axes S). length l = 1"
  defines "ms \<equiv> missing_axes set_order S (fold_axes new_axes)"
  shows "expanded_space_of set_order S new_axes =
           \<lparr>axes = axes S @ map Name ms, extent = extent S @ map (\<lambda>l. (l, 1)) ms\<rparr>"
    and "folded_axes (expanded_space_of set_order S new_axes) = folded_axes S @ ms"
    and "distinct (folded_axes S @ ms)"
    and "set (folded_axes S @ ms) = set (fold_axes new_axes)"
proof -
  have dm: "distinct ms" and sm: "set ms = set (fold_axes new_axes) - set (folded_axes S)"
    using missing_axes_facts [OF so] by (simp_all add: ms_def)
  have keys: "map fst (extent S) = folded_axes S" and dc: "distinct (folded_axes S)"
    using wf by (simp_all add: wf_space_def)
  have disj: "set ms \<inter> set (map fst (extent S)) = {}" using sm keys by auto
  have ext: "foldl (\<lambda>e ax. od_set e ax 1) (extent S) ms = extent S @ map (\<lambda>l. (l, 1)) ms"
    using dm disj by (rule foldl_od_set_ones)
  show e: "expanded_space_of set_order S new_axes =
           \<lparr>axes = axes S @ map Name ms, extent = extent S @ map (\<lambda>l. (l, 1)) ms\<rparr>"
    using sub ext by (simp add: expanded_space_of_def expand_def ms_def)
  have "\<forall>l \<in> set ms. length l = 1" using single sm by simp
  then have "fold_axes (map Name ms) = ms" by (rule fold_axes_Names)
  then show "folded_axes (expanded_space_of set_order S new_axes) = folded_axes S @ ms"
    by (simp add: e folded_axes_def fold_axes_append)
  show "distinct (folded_axes S @ ms)" using dc dm sm by auto
  show "set (folded_axes S @ ms) = set (fold_axes new_axes)" using sm sub by auto
qed

lemma transform_result:
  assumes so: "set_order_ok set_order" and wf: "wf_space S"
    and size: "nd_size X = size_sp S"
    and dist: "distinct (fold_axes new_axes)"
    and sub: "set (folded_axes S) \<subseteq> set (fold_axes new_axes)"
    and single: "\<forall>l \<in> set (fold_axes new_axes) - set (folded_axes S). length l = 1"
  defines "ms \<equiv> missing_axes set_order S (fold_axes new_axes)"
  defines "A \<equiv> \<lparr>shape = map snd (extent S) @ map (\<lambda>l. 1) ms, data = data X\<rparr>"
  defines "p \<equiv> map (first_index (folded_axes S @ ms)) (fold_axes new_axes)"
  shows "is_permutation p (length (shape A))"
    and "\<exists>A1. np_transpose A p = Inr A1 \<and>
           transform set_order S X new_axes =
             Inr (\<lparr>shape = shape_sp (new_space_of S new_axes), data = data A1\<rparr>,
                  new_space_of S new_axes)"
proof -
  let ?new = "new_space_of S new_axes"
  let ?ex = "expanded_space_of set_order S new_axes"
  let ?tgt = "fold_axes new_axes"
  have ex: "?ex = \<lparr>axes = axes S @ map Name ms, extent = extent S @ map (\<lambda>l. (l, 1)) ms\<rparr>"
    and fx: "folded_axes ?ex = folded_axes S @ ms"
    and dx: "distinct (folded_axes S @ ms)"
    and sx: "set (folded_axes S @ ms) = set ?tgt"
    using expanded_space_of_subset [OF so wf sub single] by (simp_all add: ms_def)
  have keys: "map fst (extent S) = folded_axes S" and dk: "distinct (map fst (extent S))"
    using wf by (simp_all add: wf_space_def)
  have lenA: "length (shape A) = length (folded_axes S @ ms)"
    using keys [symmetric] by (simp add: A_def)
  show perm: "is_permutation p (length (shape A))"
    unfolding p_def lenA using dx dist sx by (rule label_permutation)
  have pass: "set (folded_axes ?ex) = set (folded_axes ?new)" using fx sx by simp
  have ones: "prod_list (map (\<lambda>l. 1) ms) = (1 :: nat)" by (induction ms) simp_all
  have prodA: "prod_list (shape A) = size_sp S" using ones by (simp add: A_def size_sp_def)
  have fs: "folded_shape ?ex = shape A" by (simp add: ex folded_shape_def A_def comp_def)
  have fold: "fold_X ?ex X = Inr A"
    using size prodA by (simp add: fold_X_def np_reshape_def fs) (simp add: A_def)
  have idx: "map_err (index_of (folded_axes ?ex)) (folded_axes ?new) = Inr p"
    unfolding p_def fx using sx by (simp add: map_err_index_of)
  let ?A1 = "\<lparr>shape = map (\<lambda>k. shape A ! k) p,
              data = map (\<lambda>j. data A ! ravel (shape A)
                                (source_index p (unravel (map (\<lambda>k. shape A ! k) p) j)))
                       [0..<prod_list (map (\<lambda>k. shape A ! k) p)]\<rparr>"
  have tr: "np_transpose A p = Inr ?A1" using perm by (rule np_transpose_permutation)
  have sizeA1: "nd_size ?A1 = size_sp S"
    using prod_list_permutation [OF perm] prodA by (simp add: nd_size_def)
  have newext: "extent ?new = map (\<lambda>ax. (ax, od_get (extent S) ax 1)) ?tgt"
    using new_space_of_distinct [OF dist, of S] by simp
  have "prod_list (shape_sp ?new) = size_sp ?new"
    using dist by (intro prod_shape_sp) (simp_all add: newext comp_def)
  also have "\<dots> = size_sp S" using dk sub keys by (intro size_new_space_of) simp_all
  finally have "prod_list (shape_sp ?new) = nd_size ?A1" using sizeA1 by simp
  then have unf: "unfold_X ?new ?A1 = Inr \<lparr>shape = shape_sp ?new, data = data ?A1\<rparr>"
    by (simp add: unfold_X_def np_reshape_def)
  have "transform set_order S X new_axes = Inr (\<lparr>shape = shape_sp ?new, data = data ?A1\<rparr>, ?new)"
    using pass fold idx tr unf by (simp add: transform_def Let_def bind_err_def)
  then show "\<exists>A1. np_transpose A p = Inr A1 \<and>
           transform set_order S X new_axes =
             Inr (\<lparr>shape = shape_sp ?new, data = data A1\<rparr>, ?new)"
    using tr by (intro exI [of _ ?A1]) simp
qed

section \<open>Incompatible axes and expansion\<close>

lemma np_reshape_error: "np_reshape X shp = Inl e \<Longrightarrow> e = ValueError"
  by (simp add: np_reshape_def split: if_splits)

lemma np_transpose_error: "np_transpose X perm = Inl e \<Longrightarrow> e = ValueError"
  by (simp add: np_transpose_def Let_def split: if_splits)

lemma index_of_error: "index_of xs y = Inl e \<Longrightarrow> e = ValueError"
  by (simp add: index_of_def split: if_splits)

lemma map_err_index_of_error: "map_err (index_of xs) ys = Inl e \<Longrightarrow> e = ValueError"
proof (induction ys)
  case Nil
  then show ?case by simp
next
  case (Cons y ys)
  show ?case
  proof (cases "index_of xs y")
    case (Inl e1)
    then have "e = e1" using Cons.prems by (simp add: bind_err_def)
    then show ?thesis using index_of_error [OF Inl] by simp
  next
    case i: (Inr i)
    show ?thesis
    proof (cases "map_err (index_of xs) ys")
      case (Inl e2)
      then have "e = e2" using Cons.prems i by (simp add: bind_err_def)
      then show ?thesis using Inl Cons.IH by simp
    next
      case (Inr js)
      then show ?thesis using Cons.prems i by (simp add: bind_err_def)
    qed
  qed
qed

lemma transform_error_cases:
  assumes "transform set_order S X new_axes = Inl e"
  shows "e = ValueError \<or>
         (e = IncompatibleAxes \<and>
          set (folded_axes (expanded_space_of set_order S new_axes)) \<noteq> set (fold_axes new_axes))"
proof (cases "set (folded_axes (expanded_space_of set_order S new_axes)) = set (fold_axes new_axes)")
  case False
  then show ?thesis using assms by (simp add: transform_def Let_def)
next
  case True
  let ?ex = "expanded_space_of set_order S new_axes"
  let ?new = "new_space_of S new_axes"
  have t: "transform set_order S X new_axes =
           bind_err (fold_X ?ex X) (\<lambda>X1.
           bind_err (map_err (index_of (folded_axes ?ex)) (folded_axes ?new)) (\<lambda>perm.
           bind_err (np_transpose X1 perm) (\<lambda>X2.
           bind_err (unfold_X ?new X2) (\<lambda>X3. Inr (X3, ?new)))))"
    using True by (simp add: transform_def Let_def)
  show ?thesis
  proof (cases "fold_X ?ex X")
    case (Inl e1)
    then have "e = e1" using assms t by (simp add: bind_err_def)
    then show ?thesis using np_reshape_error [OF Inl [unfolded fold_X_def]] by simp
  next
    case X1: (Inr X1)
    show ?thesis
    proof (cases "map_err (index_of (folded_axes ?ex)) (folded_axes ?new)")
      case (Inl e2)
      then have "e = e2" using assms t X1 by (simp add: bind_err_def)
      then show ?thesis using map_err_index_of_error [OF Inl] by simp
    next
      case pm: (Inr perm)
      show ?thesis
      proof (cases "np_transpose X1 perm")
        case (Inl e3)
        then have "e = e3" using assms t X1 pm by (simp add: bind_err_def)
        then show ?thesis using np_transpose_error [OF Inl] by simp
      next
        case X2: (Inr X2)
        show ?thesis
        proof (cases "unfold_X ?new X2")
          case (Inl e4)
          then have "e = e4" using assms t X1 pm X2 by (simp add: bind_err_def)
          then show ?thesis using np_reshape_error [OF Inl [unfolded unfold_X_def]] by simp
        next
          case (Inr X3)
          then show ?thesis using assms t X1 pm X2 by (simp add: bind_err_def)
        qed
      qed
    qed
  qed
qed

text \<open>
  C3, as stated, fails for a label of more than one character: the missing leaf
  \<open>xy\<close> of the target group \<open>(b, xy)\<close> is appended to the axes as the string
  \<open>xy\<close>, whose leaves are \<open>x\<close> and \<open>y\<close>, and the assertion fails although the
  target drops no leaf of the space.
\<close>

theorem transform_multichar_label_incompatible:
  "set (folded_axes \<lparr>axes = [Name ''b''], extent = [(''b'', 2)]\<rparr>)
     \<subseteq> set (fold_axes [Group [''b'', ''xy'']]) \<and>
   transform (\<lambda>xs. xs) \<lparr>axes = [Name ''b''], extent = [(''b'', 2)]\<rparr>
     \<lparr>shape = [2], data = [1, 2 :: int]\<rparr> [Group [''b'', ''xy'']] = Inl IncompatibleAxes"
  by code_simp

text \<open>
  C3, amended. For a well-formed space whose target adds only one-character labels,
  \<^verbatim>\<open>transform\<close> raises its assertion (IncompatibleAxes) exactly when the target leaves
  drop a leaf of the space. When the leaves of the space are among the target's, the
  missing leaves, each once, are appended as axes to the current layout and as entries
  of extent 1 to the extent dictionary, in the order of the iteration; and for an array
  of the size of the space and a target without repeated leaves the transform returns its
  result with the new space.
\<close>

theorem transform_incompatible_axes:
  assumes so: "set_order_ok set_order" and wf: "wf_space S"
    and single: "\<forall>l \<in> set (fold_axes new_axes) - set (folded_axes S). length l = 1"
  shows "(transform set_order S X new_axes = Inl IncompatibleAxes
            \<longleftrightarrow> \<not> set (folded_axes S) \<subseteq> set (fold_axes new_axes)) \<and>
         (set (folded_axes S) \<subseteq> set (fold_axes new_axes) \<longrightarrow>
            distinct (missing_axes set_order S (fold_axes new_axes)) \<and>
            set (missing_axes set_order S (fold_axes new_axes))
              = set (fold_axes new_axes) - set (folded_axes S) \<and>
            expanded_space_of set_order S new_axes =
              \<lparr>axes = axes S @ map Name (missing_axes set_order S (fold_axes new_axes)),
               extent = extent S @
                 map (\<lambda>l. (l, 1)) (missing_axes set_order S (fold_axes new_axes))\<rparr> \<and>
            (nd_size X = size_sp S \<longrightarrow> distinct (fold_axes new_axes) \<longrightarrow>
               (\<exists>Y. transform set_order S X new_axes = Inr (Y, new_space_of S new_axes))))"
proof (intro conjI impI)
  show "transform set_order S X new_axes = Inl IncompatibleAxes
            \<longleftrightarrow> \<not> set (folded_axes S) \<subseteq> set (fold_axes new_axes)"
  proof (cases "set (folded_axes S) \<subseteq> set (fold_axes new_axes)")
    case True
    have "set (folded_axes (expanded_space_of set_order S new_axes)) = set (fold_axes new_axes)"
      using expanded_space_of_subset(2,4) [OF so wf True single] by simp
    then have "transform set_order S X new_axes \<noteq> Inl IncompatibleAxes"
      using transform_error_cases [of set_order S X new_axes IncompatibleAxes] by auto
    then show ?thesis using True by simp
  next
    case False
    then have "expanded_space_of set_order S new_axes = S" by (simp add: expanded_space_of_def)
    moreover have "set (folded_axes S) \<noteq> set (fold_axes new_axes)" using False by auto
    ultimately have "transform set_order S X new_axes = Inl IncompatibleAxes"
      by (simp add: transform_def Let_def)
    then show ?thesis using False by simp
  qed
next
  assume sub: "set (folded_axes S) \<subseteq> set (fold_axes new_axes)"
  show "distinct (missing_axes set_order S (fold_axes new_axes))"
    using so by (rule missing_axes_facts)
  show "set (missing_axes set_order S (fold_axes new_axes))
          = set (fold_axes new_axes) - set (folded_axes S)"
    using so by (rule missing_axes_facts)
  show "expanded_space_of set_order S new_axes =
              \<lparr>axes = axes S @ map Name (missing_axes set_order S (fold_axes new_axes)),
               extent = extent S @
                 map (\<lambda>l. (l, 1)) (missing_axes set_order S (fold_axes new_axes))\<rparr>"
    using so wf sub single by (rule expanded_space_of_subset)
next
  assume sub: "set (folded_axes S) \<subseteq> set (fold_axes new_axes)"
    and size: "nd_size X = size_sp S" and dist: "distinct (fold_axes new_axes)"
  from transform_result(2) [OF so wf size dist sub single]
  show "\<exists>Y. transform set_order S X new_axes = Inr (Y, new_space_of S new_axes)" by blast
qed

theorem transform_incompatible_axes_witness:
  "set_order_ok (\<lambda>xs. xs) \<and>
   wf_space \<lparr>axes = [Name ''b'', Name ''w''], extent = [(''b'', 2), (''w'', 3)]\<rparr> \<and>
   nd_size \<lparr>shape = [2, 3], data = [1, 2, 3, 4, 5, 6 :: int]\<rparr>
     = size_sp \<lparr>axes = [Name ''b'', Name ''w''], extent = [(''b'', 2), (''w'', 3)]\<rparr> \<and>
   distinct (fold_axes [Name ''w'', Name ''d'', Name ''b'']) \<and>
   transform (\<lambda>xs. xs) \<lparr>axes = [Name ''b'', Name ''w''], extent = [(''b'', 2), (''w'', 3)]\<rparr>
     \<lparr>shape = [2, 3], data = [1, 2, 3, 4, 5, 6 :: int]\<rparr> [Name ''w'']
     = Inl IncompatibleAxes \<and>
   expanded_space_of (\<lambda>xs. xs)
       \<lparr>axes = [Name ''b'', Name ''w''], extent = [(''b'', 2), (''w'', 3)]\<rparr>
       [Name ''w'', Name ''d'', Name ''b'']
     = \<lparr>axes = [Name ''b'', Name ''w'', Name ''d''],
        extent = [(''b'', 2), (''w'', 3), (''d'', 1)]\<rparr> \<and>
   (\<exists>Y. transform (\<lambda>xs. xs)
          \<lparr>axes = [Name ''b'', Name ''w''], extent = [(''b'', 2), (''w'', 3)]\<rparr>
          \<lparr>shape = [2, 3], data = [1, 2, 3, 4, 5, 6 :: int]\<rparr> [Name ''w'', Name ''d'', Name ''b'']
        = Inr (Y, \<lparr>axes = [Name ''w'', Name ''d'', Name ''b''],
                   extent = [(''w'', 3), (''d'', 1), (''b'', 2)]\<rparr>))"
proof -
  let ?S = "\<lparr>axes = [Name ''b'', Name ''w''], extent = [(''b'', 2), (''w'', 3)]\<rparr>"
  let ?X = "\<lparr>shape = [2, 3], data = [1, 2, 3, 4, 5, 6 :: int]\<rparr>"
  have so: "set_order_ok (\<lambda>xs. xs)" by (simp add: set_order_ok_def)
  have wf: "wf_space ?S" by code_simp
  have sz: "nd_size ?X = size_sp ?S" by code_simp
  have fa: "fold_axes [Name ''w'', Name ''d'', Name ''b''] = [''w'', ''d'', ''b'']"
    "fold_axes [Name ''w''] = [''w'']" "folded_axes ?S = [''b'', ''w'']"
    by (simp_all add: fold_axes_def folded_axes_def)
  have d: "distinct (fold_axes [Name ''w'', Name ''d'', Name ''b''])" by (simp add: fa)
  have s1: "\<forall>l \<in> set (fold_axes [Name ''w'']) - set (folded_axes ?S). length l = 1"
    by (auto simp: fa)
  have s2: "\<forall>l \<in> set (fold_axes [Name ''w'', Name ''d'', Name ''b'']) - set (folded_axes ?S). length l = 1"
    by (auto simp: fa)
  have ms: "missing_axes (\<lambda>xs. xs) ?S [''w'', ''d'', ''b''] = [''d'']"
    by (simp add: missing_axes_def fa)
  have ns: "new_space_of ?S [Name ''w'', Name ''d'', Name ''b'']
     = \<lparr>axes = [Name ''w'', Name ''d'', Name ''b''], extent = [(''w'', 3), (''d'', 1), (''b'', 2)]\<rparr>"
    by (simp add: new_space_of_def fa od_of_pairs_def od_get_def)
  have sub: "set (folded_axes ?S) \<subseteq> set (fold_axes [Name ''w'', Name ''d'', Name ''b''])"
    by (simp add: fa)
  have nsub: "\<not> set (folded_axes ?S) \<subseteq> set (fold_axes [Name ''w''])"
    by (simp add: fa)
  have a: "transform (\<lambda>xs. xs) ?S ?X [Name ''w''] = Inl IncompatibleAxes"
    using transform_incompatible_axes [OF so wf s1, of ?X] nsub by blast
  have b: "expanded_space_of (\<lambda>xs. xs) ?S [Name ''w'', Name ''d'', Name ''b'']
     = \<lparr>axes = [Name ''b'', Name ''w'', Name ''d''], extent = [(''b'', 2), (''w'', 3), (''d'', 1)]\<rparr>"
    using transform_incompatible_axes [OF so wf s2, of ?X] sub by (simp add: fa ms)
  have c: "\<exists>Y. transform (\<lambda>xs. xs) ?S ?X [Name ''w'', Name ''d'', Name ''b'']
        = Inr (Y, \<lparr>axes = [Name ''w'', Name ''d'', Name ''b''],
                   extent = [(''w'', 3), (''d'', 1), (''b'', 2)]\<rparr>)"
    using transform_incompatible_axes [OF so wf s2, of ?X] sub sz d unfolding ns by blast
  show ?thesis using so wf sz d a b c by blast
qed

section \<open>Transform and back\<close>

lemma od_get_nth:
  "distinct (map fst d) \<Longrightarrow> l \<in> set (map fst d) \<Longrightarrow>
   od_get d l dflt = map snd d ! first_index (map fst d) l"
proof (induction d)
  case Nil
  then show ?case by simp
next
  case (Cons kv d)
  obtain k v where kv: "kv = (k, v)" by (cases kv)
  show ?case
  proof (cases "k = l")
    case True
    then show ?thesis by (simp add: kv od_get_def)
  next
    case False
    then have "od_get d l dflt = map snd d ! first_index (map fst d) l"
      using Cons by (simp add: kv)
    then show ?thesis using False by (simp add: kv od_get_def)
  qed
qed

lemma od_get_rebuild:
  assumes "distinct (map fst d)"
  shows "map (\<lambda>k. (k, od_get d k dflt)) (map fst d) = d"
proof -
  have z: "map (\<lambda>k. (k, g k)) ks = zip ks (map g ks)" for g :: "label \<Rightarrow> nat" and ks
    by (induction ks) auto
  have "map (\<lambda>k. (k, od_get d k dflt)) (map fst d)
        = zip (map fst d) (map (\<lambda>k. od_get d k dflt) (map fst d))" by (rule z)
  also have "\<dots> = zip (map fst d) (map snd d)" by (simp only: od_get_distinct [OF assms])
  also have "\<dots> = d" by (rule zip_map_fst_snd)
  finally show ?thesis .
qed

lemma od_get_mapped:
  "l \<in> set ks \<Longrightarrow> od_get (map (\<lambda>k. (k, f k)) ks) l dflt = f l"
  by (induction ks) (auto simp: od_get_def)

lemma first_index_map_inj:
  "inj_on f (insert x (set xs)) \<Longrightarrow> first_index (map f xs) (f x) = first_index xs x"
proof (induction xs)
  case Nil
  then show ?case by simp
next
  case (Cons y ys)
  have inj: "inj_on f (insert x (set ys))"
    using Cons.prems by (rule inj_on_subset) auto
  have "f y = f x \<longleftrightarrow> y = x" using Cons.prems by (auto simp: inj_on_def)
  then show ?case using Cons.IH [OF inj] by simp
qed

lemma inverse_label_permutation:
  assumes dc: "distinct cur" and dt: "distinct tgt" and same: "set cur = set tgt"
  shows "map (first_index (map (first_index cur) tgt)) [0..<length cur] = map (first_index tgt) cur"
proof (rule nth_equalityI)
  show "length (map (first_index (map (first_index cur) tgt)) [0..<length cur])
        = length (map (first_index tgt) cur)" by simp
  fix k assume "k < length (map (first_index (map (first_index cur) tgt)) [0..<length cur])"
  then have k: "k < length cur" by simp
  have mem: "cur ! k \<in> set cur" using k by simp
  have inj: "inj_on (first_index cur) (insert (cur ! k) (set tgt))"
  proof (rule inj_onI)
    fix x y assume "x \<in> insert (cur ! k) (set tgt)" "y \<in> insert (cur ! k) (set tgt)"
      "first_index cur x = first_index cur y"
    then show "x = y" using same mem first_index_inj [of x cur y] by auto
  qed
  have "first_index (map (first_index cur) tgt) k
        = first_index (map (first_index cur) tgt) (first_index cur (cur ! k))"
    using first_index_nth [OF dc k] by simp
  also have "\<dots> = first_index tgt (cur ! k)" using inj by (rule first_index_map_inj)
  finally show "map (first_index (map (first_index cur) tgt)) [0..<length cur] ! k
                = map (first_index tgt) cur ! k" using k by simp
qed

lemma missing_axes_none:
  assumes "set_order_ok set_order" and "set tgt = set (folded_axes S)"
  shows "missing_axes set_order S tgt = []"
  using missing_axes_facts(2) [OF assms(1), of S tgt] assms(2) by simp

text \<open>
  C1, as stated, fails in two ways. A target that adds a leaf is reached (the transform
  expands the layout by an axis of extent 1), but the transform back to the original axes
  drops that leaf and raises the assertion. And an array with the element count of the
  space but another shape comes back in the shape of the space, not in its own.
\<close>

theorem transform_roundtrip_fails:
  "transform (\<lambda>xs. xs) \<lparr>axes = [Name ''b'', Name ''w''], extent = [(''b'', 2), (''w'', 3)]\<rparr>
     \<lparr>shape = [2, 3], data = [1, 2, 3, 4, 5, 6 :: int]\<rparr> [Name ''b'', Name ''w'', Name ''d'']
     = Inr (\<lparr>shape = [2, 3, 1], data = [1, 2, 3, 4, 5, 6]\<rparr>,
            \<lparr>axes = [Name ''b'', Name ''w'', Name ''d''],
             extent = [(''b'', 2), (''w'', 3), (''d'', 1)]\<rparr>) \<and>
   transform (\<lambda>xs. xs)
     \<lparr>axes = [Name ''b'', Name ''w'', Name ''d''], extent = [(''b'', 2), (''w'', 3), (''d'', 1)]\<rparr>
     \<lparr>shape = [2, 3, 1], data = [1, 2, 3, 4, 5, 6 :: int]\<rparr> [Name ''b'', Name ''w'']
     = Inl IncompatibleAxes \<and>
   nd_size \<lparr>shape = [6], data = [1, 2, 3, 4, 5, 6 :: int]\<rparr>
     = size_sp \<lparr>axes = [Name ''b'', Name ''w''], extent = [(''b'', 2), (''w'', 3)]\<rparr> \<and>
   transform (\<lambda>xs. xs) \<lparr>axes = [Name ''b'', Name ''w''], extent = [(''b'', 2), (''w'', 3)]\<rparr>
     \<lparr>shape = [6], data = [1, 2, 3, 4, 5, 6 :: int]\<rparr> [Group [''b'', ''w'']]
     = Inr (\<lparr>shape = [6], data = [1, 2, 3, 4, 5, 6]\<rparr>,
            \<lparr>axes = [Group [''b'', ''w'']], extent = [(''b'', 2), (''w'', 3)]\<rparr>) \<and>
   transform (\<lambda>xs. xs) \<lparr>axes = [Group [''b'', ''w'']], extent = [(''b'', 2), (''w'', 3)]\<rparr>
     \<lparr>shape = [6], data = [1, 2, 3, 4, 5, 6 :: int]\<rparr> [Name ''b'', Name ''w'']
     = Inr (\<lparr>shape = [2, 3], data = [1, 2, 3, 4, 5, 6]\<rparr>,
            \<lparr>axes = [Name ''b'', Name ''w''], extent = [(''b'', 2), (''w'', 3)]\<rparr>) \<and>
   \<lparr>shape = [2, 3], data = [1, 2, 3, 4, 5, 6 :: int]\<rparr>
     \<noteq> \<lparr>shape = [6], data = [1, 2, 3, 4, 5, 6]\<rparr>"
  by code_simp

text \<open>
  C1, amended. For a well-formed space \<open>S\<close>, an array \<open>X\<close> of the shape of \<open>S\<close>, and a
  target arrangement of exactly the leaves of \<open>S\<close>, each once (a regrouping and
  reordering), \<^verbatim>\<open>transform\<close> to the target returns, and \<^verbatim>\<open>transform\<close> of its result
  back to the axes of \<open>S\<close> returns \<open>X\<close> and \<open>S\<close>.
\<close>

theorem transform_roundtrip:
  assumes so: "set_order_ok set_order" and wf: "wf_space S"
    and wfX: "wf_array X" and shX: "shape X = shape_sp S"
    and dist: "distinct (fold_axes new_axes)"
    and same: "set (fold_axes new_axes) = set (folded_axes S)"
  shows "\<exists>Y S'. transform set_order S X new_axes = Inr (Y, S') \<and>
           transform set_order S' Y (axes S) = Inr (X, S)"
proof -
  let ?E = "extent S"
  let ?cur = "folded_axes S"
  let ?tgt = "fold_axes new_axes"
  let ?new = "new_space_of S new_axes"
  let ?s = "map snd ?E"
  let ?p = "map (first_index ?cur) ?tgt"
  let ?A = "\<lparr>shape = ?s, data = data X\<rparr>"
  have keys: "map fst ?E = ?cur" and dc: "distinct ?cur" and dk: "distinct (map fst ?E)"
    using wf by (simp_all add: wf_space_def)
  have n: "length ?s = length ?cur" using keys [symmetric] by simp
  have size: "nd_size X = size_sp S"
    using prod_shape_sp [of S] dc keys shX by (simp add: nd_size_def)
  have sub: "set ?cur \<subseteq> set ?tgt" using same by simp
  have single: "\<forall>l \<in> set ?tgt - set ?cur. length l = 1" using same by simp
  have ms: "missing_axes set_order S ?tgt = []" using so same by (rule missing_axes_none)
  txt \<open>The first transform.\<close>
  from transform_result [OF so wf size dist sub single]
  have p: "is_permutation ?p (length (shape ?A))"
    and "\<exists>A1. np_transpose ?A ?p = Inr A1 \<and>
           transform set_order S X new_axes = Inr (\<lparr>shape = shape_sp ?new, data = data A1\<rparr>, ?new)"
    by (simp_all add: ms)
  then obtain A1 where tA: "np_transpose ?A ?p = Inr A1"
    and t1: "transform set_order S X new_axes = Inr (\<lparr>shape = shape_sp ?new, data = data A1\<rparr>, ?new)"
    by blast
  have wfA: "wf_array ?A"
    using wfX size by (simp add: wf_array_def nd_size_def size_sp_def)
  from transpose_roundtrip [OF wfA p] tA
  have wfA1: "wf_array A1" and shA1: "shape A1 = map (\<lambda>k. ?s ! k) ?p"
    and inv: "np_transpose A1 (map (first_index ?p) [0..<length ?s]) = Inr ?A"
    by auto
  txt \<open>The new space, and the space the way back computes.\<close>
  have newext: "extent ?new = map (\<lambda>ax. (ax, od_get ?E ax 1)) ?tgt"
    and newaxes: "axes ?new = new_axes"
    using new_space_of_distinct [OF dist, of S] by simp_all
  have fnew: "folded_axes ?new = ?tgt" by simp
  have wfnew: "wf_space ?new" using dist by (simp add: wf_space_def newext comp_def)
  let ?Y = "\<lparr>shape = shape_sp ?new, data = data A1\<rparr>"
  have sizeY: "nd_size ?Y = size_sp ?new"
    using prod_shape_sp [of ?new] dist by (simp add: nd_size_def newext comp_def)
  have dist2: "distinct (fold_axes (axes S))" using dc by (simp add: folded_axes_def)
  have cur: "fold_axes (axes S) = ?cur" by (simp add: folded_axes_def)
  have sub2: "set (folded_axes ?new) \<subseteq> set (fold_axes (axes S))"
    unfolding fnew cur using same by simp
  have single2: "\<forall>l \<in> set (fold_axes (axes S)) - set (folded_axes ?new). length l = 1"
    unfolding fnew cur using same by simp
  have "set (fold_axes (axes S)) = set (folded_axes ?new)"
    unfolding fnew cur using same by simp
  then have ms2: "missing_axes set_order ?new (fold_axes (axes S)) = []"
    using so by (intro missing_axes_none)
  have "map (\<lambda>l. (l, od_get (extent ?new) l 1)) ?cur = map (\<lambda>l. (l, od_get ?E l 1)) ?cur"
    using same by (intro map_cong) (simp_all add: newext od_get_mapped)
  also have "\<dots> = ?E" using od_get_rebuild [OF dk, of 1] keys by simp
  finally have ext2: "map (\<lambda>l. (l, od_get (extent ?new) l 1)) ?cur = ?E" .
  have S2: "new_space_of ?new (axes S) = S"
    using new_space_of_distinct [OF dist2, of ?new] ext2 unfolding cur by simp
  txt \<open>The array the way back folds is the transposed one.\<close>
  have "map snd (extent ?new) = map (\<lambda>l. od_get ?E l 1) ?tgt" by (simp add: newext comp_def)
  also have "\<dots> = map (\<lambda>l. ?s ! first_index ?cur l) ?tgt"
    using same keys od_get_nth [OF dk, of _ 1] by (intro map_cong) simp_all
  also have "\<dots> = shape A1" by (simp add: shA1 comp_def)
  finally have shnew: "map snd (extent ?new) = shape A1" .
  have A': "\<lparr>shape = map snd (extent ?new), data = data ?Y\<rparr> = A1" by (simp add: shnew)
  have q: "map (first_index ?tgt) ?cur = map (first_index ?p) [0..<length ?s]"
    using inverse_label_permutation [OF dc dist same [symmetric]] n by simp
  have "\<exists>A2. np_transpose \<lparr>shape = map snd (extent ?new), data = data ?Y\<rparr>
               (map (first_index (folded_axes ?new)) (fold_axes (axes S))) = Inr A2 \<and>
           transform set_order ?new ?Y (axes S) =
             Inr (\<lparr>shape = shape_sp S, data = data A2\<rparr>, S)"
    using transform_result(2) [OF so wfnew sizeY dist2 sub2 single2] unfolding ms2 S2 by simp
  then obtain A2 where tA2: "np_transpose A1 (map (first_index ?tgt) ?cur) = Inr A2"
    and t2: "transform set_order ?new ?Y (axes S) = Inr (\<lparr>shape = shape_sp S, data = data A2\<rparr>, S)"
    using A' cur by auto
  have "A2 = ?A" using tA2 inv q by simp
  then have "\<lparr>shape = shape_sp S, data = data A2\<rparr> = X" using shX by simp
  then have "transform set_order ?new ?Y (axes S) = Inr (X, S)" using t2 by simp
  then show ?thesis using t1 by blast
qed

theorem transform_roundtrip_witness:
  "set_order_ok (\<lambda>xs. xs) \<and>
   wf_space \<lparr>axes = [Name ''b'', Name ''w''], extent = [(''b'', 2), (''w'', 3)]\<rparr> \<and>
   wf_array \<lparr>shape = [2, 3], data = [1, 2, 3, 4, 5, 6 :: int]\<rparr> \<and>
   shape \<lparr>shape = [2, 3], data = [1, 2, 3, 4, 5, 6 :: int]\<rparr>
     = shape_sp \<lparr>axes = [Name ''b'', Name ''w''], extent = [(''b'', 2), (''w'', 3)]\<rparr> \<and>
   distinct (fold_axes [Group [''w'', ''b'']]) \<and>
   set (fold_axes [Group [''w'', ''b'']])
     = set (folded_axes \<lparr>axes = [Name ''b'', Name ''w''], extent = [(''b'', 2), (''w'', 3)]\<rparr>) \<and>
   (\<exists>Y S'. transform (\<lambda>xs. xs)
              \<lparr>axes = [Name ''b'', Name ''w''], extent = [(''b'', 2), (''w'', 3)]\<rparr>
              \<lparr>shape = [2, 3], data = [1, 2, 3, 4, 5, 6 :: int]\<rparr> [Group [''w'', ''b'']] = Inr (Y, S') \<and>
           transform (\<lambda>xs. xs) S' Y [Name ''b'', Name ''w'']
             = Inr (\<lparr>shape = [2, 3], data = [1, 2, 3, 4, 5, 6]\<rparr>,
                    \<lparr>axes = [Name ''b'', Name ''w''], extent = [(''b'', 2), (''w'', 3)]\<rparr>))"
proof -
  let ?S = "\<lparr>axes = [Name ''b'', Name ''w''], extent = [(''b'', 2), (''w'', 3)]\<rparr>"
  let ?X = "\<lparr>shape = [2, 3], data = [1, 2, 3, 4, 5, 6 :: int]\<rparr>"
  have so: "set_order_ok (\<lambda>xs. xs)" by (simp add: set_order_ok_def)
  have wf: "wf_space ?S" by code_simp
  have wfX: "wf_array ?X" by code_simp
  have sh: "shape ?X = shape_sp ?S" by code_simp
  have d: "distinct (fold_axes [Group [''w'', ''b'']])" by code_simp
  have e: "set (fold_axes [Group [''w'', ''b'']]) = set (folded_axes ?S)" by code_simp
  have "\<exists>Y S'. transform (\<lambda>xs. xs) ?S ?X [Group [''w'', ''b'']] = Inr (Y, S') \<and>
           transform (\<lambda>xs. xs) S' Y (axes ?S) = Inr (?X, ?S)"
    using so wf wfX sh d e by (rule transform_roundtrip)
  then have "\<exists>Y S'. transform (\<lambda>xs. xs) ?S ?X [Group [''w'', ''b'']] = Inr (Y, S') \<and>
           transform (\<lambda>xs. xs) S' Y [Name ''b'', Name ''w''] = Inr (?X, ?S)"
    by simp
  then show ?thesis using so wf wfX sh d e by blast
qed

section \<open>Broadcast\<close>











end
